theory Spec2Isabelle
  imports Main "HOL-Library.Word"
begin

unbundle bit_operations_syntax

section \<open>Data model of circularbuffer.h\<close>

text \<open>
  The C integer types of the target (ARM Cortex-M): \<open>uint8_t\<close>, \<open>uint16_t\<close> and
  \<open>uint32_t\<close> are words of that width; \<open>int\<close> and \<open>unsigned long\<close> have 32 bits, so
  an operand of type \<open>uint16_t\<close> is promoted to a 32-bit value before arithmetic and
  the result is truncated again when it is stored in a \<open>uint16_t\<close>.
\<close>

type_synonym uint8_t = "8 word"
type_synonym uint16_t = "16 word"
type_synonym uint32_t = "32 word"

text \<open>
  \<open>CircularBufferPointers_t\<close>: the two cursors, laid out like the first four bytes of
  the buffer object.
\<close>

record CircularBufferPointers_t =
  back_p :: uint16_t
  front_p :: uint16_t

text \<open>
  \<open>CircularBufferObject_t\<close>. The field \<open>length\<close> of the C struct is \<open>length_buf\<close> here.
  \<open>memory\<close> is the pointer to the caller's byte region: \<open>None\<close> is the null pointer,
  \<open>Some mem\<close> a region holding the bytes \<open>mem\<close>.
\<close>

record CircularBufferObject_t =
  "back" :: uint16_t
  front :: uint16_t
  faultFlag :: uint16_t
  lengthMask :: uint16_t
  length_buf :: uint32_t
  memory :: "uint8_t list option"

text \<open>
  A failed \<open>assert\<close> and an access outside a memory region end the call; both are
  results of the model.
\<close>

datatype error = AssertionFailed | InvalidAccess

section \<open>The operations of circularbuffer.c\<close>

text \<open>
  \<open>CircularBuffer_init\<close>. The object pointer is the state the model returns, so
  \<open>assert(bufferObject)\<close> has no counterpart; \<open>assert(length_2N <= 16)\<close> is kept.
  \<open>0x0001UL << length_2N\<close> is a 32-bit shift, stored into the 16-bit mask.
\<close>

definition CircularBuffer_init ::
  "uint8_t list option \<Rightarrow> uint8_t \<Rightarrow> error + CircularBufferObject_t" where
  "CircularBuffer_init bufferMemory length_2N =
     (if \<not> length_2N \<le> 16 then Inl AssertionFailed
      else
        let lengthMask' = (ucast ((push_bit (unat length_2N) (1 :: uint32_t)) - 1) :: uint16_t)
        in Inr \<lparr> back = 0, front = 0, faultFlag = 0,
                 lengthMask = lengthMask',
                 length_buf = (if length_2N \<noteq> 0 then (ucast lengthMask' :: uint32_t) + 1 else 0),
                 memory = bufferMemory \<rparr>)"

text \<open>
  The snapshot of \<open>CircularBuffer_getUnreadSize\<close>: the first 32-bit word of the object
  (little-endian: \<open>back\<close> in the low half, \<open>front\<close> in the high half) is copied over a
  \<open>CircularBufferPointers_t\<close>.
\<close>

definition read_word :: "CircularBufferObject_t \<Rightarrow> uint32_t" where
  "read_word bufferObject =
     (ucast (back bufferObject) :: uint32_t) OR push_bit 16 (ucast (front bufferObject) :: uint32_t)"

definition write_word :: "uint32_t \<Rightarrow> CircularBufferPointers_t" where
  "write_word w = \<lparr> back_p = ucast w, front_p = ucast (drop_bit 16 w) \<rparr>"

definition CircularBuffer_getUnreadSize :: "CircularBufferObject_t \<Rightarrow> error + uint16_t" where
  "CircularBuffer_getUnreadSize bufferObject =
     (if memory bufferObject = None then Inl AssertionFailed
      else
        let cachedPointers = write_word (read_word bufferObject)
        in Inr (ucast (((ucast (back_p cachedPointers) :: uint32_t)
                          - ucast (front_p cachedPointers))
                        AND ucast (lengthMask bufferObject))))"

definition CircularBuffer_checkAndClearFault ::
  "CircularBufferObject_t \<Rightarrow> bool \<Rightarrow> error + (bool \<times> CircularBufferObject_t)" where
  "CircularBuffer_checkAndClearFault bufferObject clearBuffer =
     (if memory bufferObject = None then Inl AssertionFailed
      else
        let b1 = (if clearBuffer then bufferObject\<lparr>front := back bufferObject\<rparr>
                  else bufferObject)
        in if faultFlag b1 \<noteq> 0 then Inr (True, b1\<lparr>faultFlag := 0\<rparr>)
           else Inr (False, b1))"

definition CircularBuffer_pushBackByte ::
  "CircularBufferObject_t \<Rightarrow> uint8_t \<Rightarrow> error + (bool \<times> CircularBufferObject_t)" where
  "CircularBuffer_pushBackByte bufferObject data =
     (case memory bufferObject of
        None \<Rightarrow> Inl AssertionFailed
      | Some mem \<Rightarrow>
         (case CircularBuffer_getUnreadSize bufferObject of
            Inl e \<Rightarrow> Inl e
          | Inr unread \<Rightarrow>
             if unread < lengthMask bufferObject then
               if unat (back bufferObject) < length mem then
                 Inr (True,
                      bufferObject
                        \<lparr> memory := Some (mem[unat (back bufferObject) := data]),
                          back := ucast (((ucast (back bufferObject) :: uint32_t) + 1)
                                          AND ucast (lengthMask bufferObject)) \<rparr>)
               else Inl InvalidAccess
             else Inr (False, bufferObject\<lparr>faultFlag := 1\<rparr>)))"

text \<open>
  \<open>CircularBuffer_popFrontByte\<close>: \<open>data\<close> is the byte the caller's pointer refers to
  before the call; the second component of the result is that byte after the call.
\<close>

definition CircularBuffer_popFrontByte ::
  "CircularBufferObject_t \<Rightarrow> uint8_t \<Rightarrow> error + (bool \<times> uint8_t \<times> CircularBufferObject_t)" where
  "CircularBuffer_popFrontByte bufferObject data =
     (case memory bufferObject of
        None \<Rightarrow> Inl AssertionFailed
      | Some mem \<Rightarrow>
         if back bufferObject \<noteq> front bufferObject then
           if unat (front bufferObject) < length mem then
             Inr (True, mem ! unat (front bufferObject),
                  bufferObject
                    \<lparr> front := ucast (((ucast (front bufferObject) :: uint32_t) + 1)
                                       AND ucast (lengthMask bufferObject)) \<rparr>)
           else Inl InvalidAccess
         else Inr (False, data, bufferObject))"

text \<open>
  \<open>memcpy(&dst[doff], &src[soff], n)\<close> on two separate regions: the region \<open>dst\<close> with
  \<open>n\<close> bytes replaced from offset \<open>doff\<close>, or \<open>InvalidAccess\<close> when either range leaves
  its region.
\<close>

definition memcpy :: "uint8_t list \<Rightarrow> nat \<Rightarrow> uint8_t list \<Rightarrow> nat \<Rightarrow> nat \<Rightarrow> error + uint8_t list" where
  "memcpy dst doff src soff n =
     (if doff + n \<le> length dst \<and> soff + n \<le> length src
      then Inr (take doff dst @ take n (drop soff src) @ drop (doff + n) dst)
      else Inl InvalidAccess)"

text \<open>
  The length of one part of a bulk copy: \<open>lenTotal\<close>, limited by the distance from the
  cursor to the end of the store. The comparison and the subtraction are unsigned
  32-bit, the assignment truncates to 16 bits.
\<close>

definition partialLen_of :: "uint32_t \<Rightarrow> uint16_t \<Rightarrow> uint16_t \<Rightarrow> uint16_t" where
  "partialLen_of len cursor lenTotal =
     (if len - ucast cursor < (ucast lenTotal :: uint32_t)
      then ucast (len - ucast cursor) else lenTotal)"

text \<open>
  The \<open>while\<close> loop of \<open>CircularBuffer_pushBack\<close>. \<open>data\<close> is the caller's source
  region and \<open>off\<close> the position the moving pointer \<open>data\<close> has reached in it. The loop
  has no bound of its own (a part of length 0 repeats forever), so a run that does not
  return is the value \<open>None\<close>.
\<close>

partial_function (option) pushBack_loop ::
  "CircularBufferObject_t \<Rightarrow> uint8_t list \<Rightarrow> nat \<Rightarrow> uint16_t
     \<Rightarrow> (error + CircularBufferObject_t) option" where
  "pushBack_loop bufferObject data off lenTotal =
     (if lenTotal > 0 then
        let partialLen = partialLen_of (length_buf bufferObject) (back bufferObject) lenTotal
        in (case memory bufferObject of
             None \<Rightarrow> Some (Inl InvalidAccess)
           | Some mem \<Rightarrow>
              (case memcpy mem (unat (back bufferObject)) data off (unat partialLen) of
                 Inl e \<Rightarrow> Some (Inl e)
               | Inr mem' \<Rightarrow>
                  pushBack_loop
                    (bufferObject
                       \<lparr> memory := Some mem',
                         back := ucast (((ucast (back bufferObject) :: uint32_t) + ucast partialLen)
                                         AND ucast (lengthMask bufferObject)) \<rparr>)
                    data (off + unat partialLen) (lenTotal - partialLen)))
      else Some (Inr bufferObject))"

definition CircularBuffer_pushBack ::
  "CircularBufferObject_t \<Rightarrow> uint8_t list \<Rightarrow> uint16_t
     \<Rightarrow> (error + (uint16_t \<times> CircularBufferObject_t)) option" where
  "CircularBuffer_pushBack bufferObject data maxlen =
     (if memory bufferObject = None then Some (Inl AssertionFailed)
      else
        (case CircularBuffer_getUnreadSize bufferObject of
          Inl e \<Rightarrow> Some (Inl e)
        | Inr unread \<Rightarrow>
           let lenTotal0 = (ucast ((ucast (lengthMask bufferObject) :: uint32_t) - ucast unread) :: uint16_t);
               lenTotal = (if lenTotal0 > maxlen then maxlen else lenTotal0);
               actualLen = lenTotal
           in (case pushBack_loop bufferObject data 0 lenTotal of
                 None \<Rightarrow> None
               | Some (Inl e) \<Rightarrow> Some (Inl e)
               | Some (Inr b') \<Rightarrow> Some (Inr (actualLen, b')))))"

text \<open>
  The loop of \<open>CircularBuffer_popFront\<close>; \<open>data\<close> is the caller's output region, which
  the loop returns updated together with the buffer object.
\<close>

partial_function (option) popFront_loop ::
  "CircularBufferObject_t \<Rightarrow> uint8_t list \<Rightarrow> nat \<Rightarrow> uint16_t
     \<Rightarrow> (error + (uint8_t list \<times> CircularBufferObject_t)) option" where
  "popFront_loop bufferObject data off lenTotal =
     (if lenTotal > 0 then
        let partialLen = partialLen_of (length_buf bufferObject) (front bufferObject) lenTotal
        in (case memory bufferObject of
             None \<Rightarrow> Some (Inl InvalidAccess)
           | Some mem \<Rightarrow>
              (case memcpy data off mem (unat (front bufferObject)) (unat partialLen) of
                 Inl e \<Rightarrow> Some (Inl e)
               | Inr data' \<Rightarrow>
                  popFront_loop
                    (bufferObject
                       \<lparr> front := ucast (((ucast (front bufferObject) :: uint32_t) + ucast partialLen)
                                          AND ucast (lengthMask bufferObject)) \<rparr>)
                    data' (off + unat partialLen) (lenTotal - partialLen)))
      else Some (Inr (data, bufferObject)))"

definition CircularBuffer_popFront ::
  "CircularBufferObject_t \<Rightarrow> uint8_t list \<Rightarrow> uint16_t
     \<Rightarrow> (error + (uint16_t \<times> uint8_t list \<times> CircularBufferObject_t)) option" where
  "CircularBuffer_popFront bufferObject data maxlen =
     (if memory bufferObject = None then Some (Inl AssertionFailed)
      else
        (case CircularBuffer_getUnreadSize bufferObject of
          Inl e \<Rightarrow> Some (Inl e)
        | Inr unread \<Rightarrow>
           let lenTotal = (if unread > maxlen then maxlen else unread);
               actualLen = lenTotal
           in (case popFront_loop bufferObject data 0 lenTotal of
                 None \<Rightarrow> None
               | Some (Inl e) \<Rightarrow> Some (Inl e)
               | Some (Inr (data', b')) \<Rightarrow> Some (Inr (actualLen, data', b')))))"

section \<open>Initialised buffers and sequences of calls\<close>

text \<open>
  An initialised buffer of capacity exponent \<open>N\<close>: the fields as \<open>CircularBuffer_init\<close>
  sets them for a store of \<open>2 ^ N\<close> bytes, with both cursors anywhere inside the mask.
\<close>

definition initialized :: "nat \<Rightarrow> CircularBufferObject_t \<Rightarrow> bool" where
  "initialized N b \<longleftrightarrow>
     N \<le> 16 \<and>
     (case memory b of None \<Rightarrow> False | Some mem \<Rightarrow> length mem = 2 ^ N) \<and>
     lengthMask b = mask N \<and>
     length_buf b = (if N = 0 then 0 else 2 ^ N) \<and>
     back b \<le> lengthMask b \<and> front b \<le> lengthMask b"

text \<open>
  The store after writing the bytes \<open>xs\<close> one after the other from index \<open>s\<close>, and the
  \<open>n\<close> bytes read one after the other from index \<open>s\<close>; the index returns to 0 after
  the last cell.
\<close>

fun circ_write :: "uint8_t list \<Rightarrow> nat \<Rightarrow> uint8_t list \<Rightarrow> uint8_t list" where
  "circ_write mem s [] = mem"
| "circ_write mem s (x # xs) = circ_write (mem[s := x]) ((s + 1) mod length mem) xs"

fun circ_read :: "uint8_t list \<Rightarrow> nat \<Rightarrow> nat \<Rightarrow> uint8_t list" where
  "circ_read mem s 0 = []"
| "circ_read mem s (Suc n) = mem ! s # circ_read mem ((s + 1) mod length mem) n"

text \<open>
  \<open>push_each\<close> calls \<open>CircularBuffer_pushBackByte\<close> once for every byte of a list and
  collects the return values. \<open>pop_each\<close> calls \<open>CircularBuffer_popFrontByte\<close> once for
  every cell of a destination region, in order, and returns the return values and the
  region after the calls.
\<close>

fun push_each ::
  "CircularBufferObject_t \<Rightarrow> uint8_t list \<Rightarrow> error + (bool list \<times> CircularBufferObject_t)" where
  "push_each b [] = Inr ([], b)"
| "push_each b (x # xs) =
     (case CircularBuffer_pushBackByte b x of
        Inl e \<Rightarrow> Inl e
      | Inr (ok, b') \<Rightarrow>
         (case push_each b' xs of
            Inl e \<Rightarrow> Inl e
          | Inr (oks, b'') \<Rightarrow> Inr (ok # oks, b'')))"

fun pop_each ::
  "CircularBufferObject_t \<Rightarrow> uint8_t list
     \<Rightarrow> error + (bool list \<times> uint8_t list \<times> CircularBufferObject_t)" where
  "pop_each b [] = Inr ([], [], b)"
| "pop_each b (d # ds) =
     (case CircularBuffer_popFrontByte b d of
        Inl e \<Rightarrow> Inl e
      | Inr (ok, d', b') \<Rightarrow>
         (case pop_each b' ds of
            Inl e \<Rightarrow> Inl e
          | Inr (oks, ds', b'') \<Rightarrow> Inr (ok # oks, d' # ds', b'')))"

text \<open>
  An arbitrary interleaving of single-element calls: \<open>Push x\<close> pushes the byte \<open>x\<close>,
  \<open>Pop\<close> pops into a cell that held 0. \<open>run_ops\<close> runs them in order and counts the
  pushes and the pops that returned \<open>true\<close>.
\<close>

datatype op = Push uint8_t | Pop

fun run_ops ::
  "op list \<Rightarrow> nat \<Rightarrow> nat \<Rightarrow> CircularBufferObject_t
     \<Rightarrow> error + (nat \<times> nat \<times> CircularBufferObject_t)" where
  "run_ops [] pushes pops b = Inr (pushes, pops, b)"
| "run_ops (Push x # ops) pushes pops b =
     (case CircularBuffer_pushBackByte b x of
        Inl e \<Rightarrow> Inl e
      | Inr (ok, b') \<Rightarrow> run_ops ops (if ok then pushes + 1 else pushes) pops b')"
| "run_ops (Pop # ops) pushes pops b =
     (case CircularBuffer_popFrontByte b 0 of
        Inl e \<Rightarrow> Inl e
      | Inr (ok, d, b') \<Rightarrow> run_ops ops pushes (if ok then pops + 1 else pops) b')"

section \<open>Word arithmetic of the cursor updates\<close>

lemma snapshot_fields: "write_word (read_word b) = \<lparr> back_p = back b, front_p = front b \<rparr>"
  unfolding write_word_def read_word_def
  apply simp
  apply (rule conjI)
   apply (rule bit_word_eqI)
   apply (simp add: bit_simps)
  apply (rule bit_word_eqI)
  apply (auto simp add: bit_simps dest: bit_imp_le_length)
  done

lemma is_down_32_16: "is_down (ucast :: 32 word \<Rightarrow> 16 word)"
  by (simp add: is_down)

lemma promote_sub: "(ucast (((ucast (x::16 word) :: 32 word) - ucast (y :: 16 word))) :: 16 word) = (x - y)"
proof -
  have a: "(ucast x :: 32 word) = word_of_int (uint x)" by (rule ucast_eq)
  have b: "(ucast y :: 32 word) = word_of_int (uint y)" by (rule ucast_eq)
  have "(ucast x :: 32 word) - ucast y = word_of_int (uint x - uint y)"
    by (simp only: a b wi_homs)
  then have "(ucast ((ucast x :: 32 word) - ucast y) :: 16 word) = word_of_int (uint x - uint y)"
    by (simp only: ucast_down_wi [OF is_down_32_16])
  then show ?thesis by (simp only: wi_hom_syms word_of_int_uint)
qed

lemma promote_add: "(ucast (((ucast (x::16 word) :: 32 word) + ucast (y :: 16 word))) :: 16 word) = (x + y)"
proof -
  have a: "(ucast x :: 32 word) = word_of_int (uint x)" by (rule ucast_eq)
  have b: "(ucast y :: 32 word) = word_of_int (uint y)" by (rule ucast_eq)
  have "(ucast x :: 32 word) + ucast y = word_of_int (uint x + uint y)"
    by (simp only: a b wi_homs)
  then have "(ucast ((ucast x :: 32 word) + ucast y) :: 16 word) = word_of_int (uint x + uint y)"
    by (simp only: ucast_down_wi [OF is_down_32_16])
  then show ?thesis by (simp only: wi_hom_syms word_of_int_uint)
qed

lemma ucast_and_down: "(ucast (((x :: 32 word)) AND ucast (m :: 16 word)) :: 16 word) = ucast x AND m"
  by (rule bit_word_eqI) (auto simp add: bit_simps)

lemma promote_add_and: "(ucast (((ucast (x::16 word) :: 32 word) + ucast (y :: 16 word)) AND ucast (m :: 16 word)) :: 16 word) = (x + y) AND m"
  by (simp only: ucast_and_down promote_add)

lemma promote_succ_and: "(ucast (((ucast (x::16 word) :: 32 word) + 1) AND ucast (m :: 16 word)) :: 16 word) = (x + 1) AND m"
  using promote_add_and[of x 1 m] by simp

lemma promote_sub_and: "(ucast (((ucast (x::16 word) :: 32 word) - ucast (y :: 16 word)) AND ucast (m :: 16 word)) :: 16 word) = (x - y) AND m"
  by (simp only: ucast_and_down promote_sub)

lemma mask_init: "n \<le> 16 \<Longrightarrow> (ucast ((push_bit n (1 :: uint32_t)) - 1) :: uint16_t) = mask n"
  by (simp add: push_bit_eq_mult flip: mask_eq_exp_minus_1) (simp add: ucast_mask_eq)

lemma unat_and_mask: "unat ((x :: 16 word) AND mask n) = unat x mod 2 ^ n"
proof -
  have "unat (take_bit n x) = take_bit n (unat x)"
    by (simp add: unsigned_take_bit_eq)
  then show ?thesis
    by (simp only: take_bit_eq_mask [symmetric] take_bit_eq_mod [of n "unat x"])
qed

lemma unat_mask16: "n \<le> 16 \<Longrightarrow> unat (mask n :: 16 word) = 2 ^ n - 1"
proof -
  assume "n \<le> 16"
  then have "uint (mask n :: 16 word) = mask n"
    by (simp add: uint_mask_eq min_def)
  then have "unat (mask n :: 16 word) = nat (mask n)"
    by (simp only: unat_eq_nat_uint)
  then have "unat (mask n :: 16 word) = (mask n :: nat)"
    by (simp only: nat_mask_eq)
  then show ?thesis
    by (simp only: mask_eq_exp_minus_1)
qed

lemma pow_dvd16: "n \<le> 16 \<Longrightarrow> (2::nat) ^ n dvd 65536"
  using le_imp_power_dvd [of n 16 "2::nat"] by simp

lemma unat_add_mask: "n \<le> 16 \<Longrightarrow> unat (((x :: 16 word) + y) AND mask n) = (unat x + unat y) mod 2 ^ n"
  by (simp add: unat_and_mask unat_word_ariths mod_mod_cancel pow_dvd16)

lemma getUnreadSize_eq:
  "memory b \<noteq> None \<Longrightarrow>
   CircularBuffer_getUnreadSize b = Inr ((back b - front b) AND lengthMask b)"
  by (simp add: CircularBuffer_getUnreadSize_def snapshot_fields promote_sub_and)


lemma le_mask_id:
  assumes "N \<le> 16" "(x :: 16 word) \<le> mask N"
  shows "x AND mask N = x"
proof -
  have "unat x \<le> 2 ^ N - 1"
    using assms unat_mask16 [of N] by (simp add: word_le_nat_alt)
  then have "unat x < 2 ^ N"
    using zero_less_power [of "2::nat" N] by linarith
  then have "uint x < 2 ^ N"
    by (simp add: unat_eq_nat_uint del: nat_uint_eq)
  then show ?thesis
    by (simp add: mask_eq_iff)
qed

lemma initialized_facts:
  assumes "initialized N b"
  shows "N \<le> 16" and "lengthMask b = mask N" and "memory b \<noteq> None"
    and "back b AND mask N = back b" and "front b AND mask N = front b"
    and "unat (back b) < 2 ^ N" and "unat (front b) < 2 ^ N"
proof -
  show n: "N \<le> 16" and m: "lengthMask b = mask N" and "memory b \<noteq> None"
    using assms by (auto simp: initialized_def split: option.splits)
  have "back b \<le> mask N" "front b \<le> mask N"
    using assms by (auto simp: initialized_def)
  then show bk: "back b AND mask N = back b" and fr: "front b AND mask N = front b"
    using n by (simp_all add: le_mask_id)
  have "unat (back b AND mask N) < 2 ^ N" "unat (front b AND mask N) < 2 ^ N"
    by (simp_all add: unat_and_mask)
  then show "unat (back b) < 2 ^ N" and "unat (front b) < 2 ^ N"
    by (simp_all only: bk fr)
qed

lemma initialized_memory:
  "initialized N b \<Longrightarrow> memory b = Some mem \<Longrightarrow> length mem = 2 ^ N"
  by (simp add: initialized_def)

lemma initialized_unread:
  assumes "initialized N b"
  shows "CircularBuffer_getUnreadSize b = Inr ((back b - front b) AND mask N)"
  using initialized_facts(2,3) [OF assms] by (simp add: getUnreadSize_eq)

lemma unread_le:
  assumes "initialized N b" "CircularBuffer_getUnreadSize b = Inr u"
  shows "unat u \<le> 2 ^ N - 1"
proof -
  have "u = (back b - front b) AND mask N"
    using assms initialized_unread by simp
  then have "unat u < 2 ^ N"
    by (simp add: unat_and_mask)
  then show ?thesis by simp
qed

lemma no_overflow_add:
  assumes "N \<le> 16" "unat (u :: 16 word) + unat k \<le> 2 ^ N - 1"
  shows "unat (u + k) = unat u + unat k" and "(u + k) AND mask N = u + k"
proof -
  have "(2::nat) ^ N \<le> 2 ^ 16"
    using assms(1) by (intro power_increasing) simp_all
  then have "unat u + unat k < 2 ^ 16"
    using assms(2) by simp
  then show s: "unat (u + k) = unat u + unat k"
    by (simp add: unat_add_lem [THEN iffD1])
  have "unat (u + k) < 2 ^ N"
    using assms(2) zero_less_power [of "2::nat" N] unfolding s by linarith
  then have "uint (u + k) < 2 ^ N"
    by (simp add: unat_eq_nat_uint del: nat_uint_eq)
  then show "(u + k) AND mask N = u + k"
    by (simp add: mask_eq_iff)
qed

lemma initialized_push:
  assumes "initialized N b" "length mem' = 2 ^ N"
  shows "initialized N (b\<lparr>memory := Some mem', back := x AND mask N\<rparr>)"
  using assms by (auto simp add: initialized_def word_and_le1)

lemma initialized_pop:
  assumes "initialized N b"
  shows "initialized N (b\<lparr>front := x AND mask N\<rparr>)"
  using assms by (auto simp add: initialized_def word_and_le1)

lemma unread_push:
  assumes "initialized N b" "CircularBuffer_getUnreadSize b = Inr u"
    and "unat u + unat k \<le> 2 ^ N - 1"
  shows "CircularBuffer_getUnreadSize (b\<lparr>memory := Some mem', back := (back b + k) AND mask N\<rparr>)
           = Inr (u + k)"
proof -
  have u: "u = (back b - front b) AND mask N"
    using assms initialized_unread by simp
  have "((back b + k) AND mask N) - front b AND mask N = (back b + k - front b) AND mask N"
    by (simp only: mask_eqs)
  also have "back b + k - front b = (back b - front b) + k"
    by simp
  also have "(back b - front b) + k AND mask N = u + k AND mask N"
    unfolding u by (simp only: mask_eqs)
  also have "\<dots> = u + k"
    using no_overflow_add(2) [OF initialized_facts(1) [OF assms(1)] assms(3)] .
  finally show ?thesis
    using initialized_facts(2) [OF assms(1)] by (simp add: getUnreadSize_eq)
qed

lemma unread_pop:
  assumes "initialized N b" "CircularBuffer_getUnreadSize b = Inr u"
    and "k \<le> u"
  shows "CircularBuffer_getUnreadSize (b\<lparr>front := (front b + k) AND mask N\<rparr>) = Inr (u - k)"
proof -
  have u: "u = (back b - front b) AND mask N"
    using assms initialized_unread by simp
  have "u - k \<le> u"
    using assms(3) by (simp add: word_sub_le)
  also have "u \<le> mask N"
    unfolding u by (rule word_and_le1)
  finally have id: "(u - k) AND mask N = u - k"
    using initialized_facts(1) [OF assms(1)] by (simp add: le_mask_id)
  have "back b - ((front b + k) AND mask N) AND mask N = (back b - (front b + k)) AND mask N"
    by (simp only: mask_eqs)
  also have "back b - (front b + k) = (back b - front b) - k"
    by simp
  also have "(back b - front b) - k AND mask N = u - k AND mask N"
    unfolding u by (simp only: mask_eqs)
  finally show ?thesis
    using initialized_facts(2,3) [OF assms(1)] id by (simp add: getUnreadSize_eq)
qed

lemma empty_iff:
  assumes "initialized N b" "CircularBuffer_getUnreadSize b = Inr u"
  shows "u = 0 \<longleftrightarrow> back b = front b"
proof
  assume "u = 0"
  then have z: "(back b - front b) AND mask N = 0"
    using assms initialized_unread by simp
  have "back b = (front b + (back b - front b)) AND mask N"
    using initialized_facts(4) [OF assms(1)] by simp
  also have "\<dots> = (front b + ((back b - front b) AND mask N)) AND mask N"
    by (simp only: mask_eqs)
  also have "\<dots> = front b"
    unfolding z using initialized_facts(5) [OF assms(1)] by simp
  finally show "back b = front b" .
next
  assume "back b = front b"
  then show "u = 0"
    using assms initialized_unread by simp
qed

lemma pushBackByte_space:
  assumes "initialized N b" "memory b = Some mem" "CircularBuffer_getUnreadSize b = Inr u"
    and "unat u < 2 ^ N - 1"
  shows "CircularBuffer_pushBackByte b x =
           Inr (True, b\<lparr>memory := Some (mem[unat (back b) := x]),
                        back := (back b + 1) AND mask N\<rparr>)"
proof -
  have "u < lengthMask b"
    using assms(4) initialized_facts(1,2) [OF assms(1)]
    by (simp add: word_less_nat_alt unat_mask16)
  moreover have "unat (back b) < length mem"
    using initialized_facts(6) [OF assms(1)] initialized_memory [OF assms(1,2)] by simp
  ultimately show ?thesis
    using assms(2,3) initialized_facts(2) [OF assms(1)]
    by (simp add: CircularBuffer_pushBackByte_def promote_succ_and)
qed

lemma pushBackByte_full:
  assumes "initialized N b" "CircularBuffer_getUnreadSize b = Inr u"
    and "unat u = 2 ^ N - 1"
  shows "CircularBuffer_pushBackByte b x = Inr (False, b\<lparr>faultFlag := 1\<rparr>)"
proof -
  have "\<not> u < lengthMask b"
    using assms(3) initialized_facts(1,2) [OF assms(1)]
    by (simp add: word_less_nat_alt unat_mask16)
  then show ?thesis
    using assms(2) initialized_facts(3) [OF assms(1)]
    by (auto simp add: CircularBuffer_pushBackByte_def split: option.splits)
qed

lemma popFrontByte_data:
  assumes "initialized N b" "memory b = Some mem" "back b \<noteq> front b"
  shows "CircularBuffer_popFrontByte b d =
           Inr (True, mem ! unat (front b), b\<lparr>front := (front b + 1) AND mask N\<rparr>)"
proof -
  have "unat (front b) < length mem"
    using initialized_facts(7) [OF assms(1)] initialized_memory [OF assms(1,2)] by simp
  then show ?thesis
    using assms(2,3) initialized_facts(2) [OF assms(1)]
    by (simp add: CircularBuffer_popFrontByte_def promote_succ_and)
qed

lemma popFrontByte_empty:
  assumes "memory b \<noteq> None" "back b = front b"
  shows "CircularBuffer_popFrontByte b d = Inr (False, d, b)"
  using assms by (auto simp add: CircularBuffer_popFrontByte_def split: option.splits)

section \<open>Circular reads and writes of the store\<close>

lemma length_circ_write [simp]: "length (circ_write mem s xs) = length mem"
  by (induction xs arbitrary: mem s) simp_all

lemma length_circ_read [simp]: "length (circ_read mem s n) = n"
  by (induction n arbitrary: s) simp_all

lemma circ_write_linear:
  "s + length xs \<le> length mem \<Longrightarrow>
   circ_write mem s xs = take s mem @ xs @ drop (s + length xs) mem"
proof (induction xs arbitrary: mem s)
  case Nil
  then show ?case by simp
next
  case (Cons x xs)
  show ?case
  proof (cases xs)
    case Nil
    with Cons.prems show ?thesis
      by (simp add: upd_conv_take_nth_drop)
  next
    case (Cons y ys)
    with Cons.prems have lt: "s + 1 < length mem" by simp
    then have "circ_write (mem[s := x]) (s + 1) xs
                 = take (s + 1) (mem[s := x]) @ xs @ drop (s + 1 + length xs) (mem[s := x])"
      using Cons.prems by (intro Cons.IH) simp
    moreover have "take (s + 1) (mem[s := x]) = take s mem @ [x]"
      using lt by (simp add: take_Suc_conv_app_nth)
    ultimately show ?thesis
      using lt by simp
  qed
qed

lemma circ_write_append:
  "s < length mem \<Longrightarrow>
   circ_write mem s (xs @ ys) =
     circ_write (circ_write mem s xs) ((s + length xs) mod length mem) ys"
proof (induction xs arbitrary: mem s)
  case Nil
  then show ?case by simp
next
  case (Cons x xs)
  then have "0 < length mem"
    by (cases mem) simp_all
  then have "(s + 1) mod length mem < length (mem[s := x])"
    by simp
  then show ?case
    using Cons.IH [of "(s + 1) mod length mem" "mem[s := x]"] by (simp add: mod_simps)
qed

lemma circ_read_linear:
  "s + n \<le> length mem \<Longrightarrow> circ_read mem s n = take n (drop s mem)"
proof (induction n arbitrary: s)
  case 0
  then show ?case by simp
next
  case (Suc n)
  show ?case
  proof (cases n)
    case 0
    with Suc.prems show ?thesis
      by (simp add: take_Suc_conv_app_nth)
  next
    case (Suc m)
    with Suc.prems have lt: "s + 1 < length mem" by simp
    then have "circ_read mem (s + 1) n = take n (drop (s + 1) mem)"
      using Suc.prems by (intro Suc.IH) simp
    then show ?thesis
      using lt by (simp add: Cons_nth_drop_Suc [symmetric])
  qed
qed

lemma circ_read_add:
  "s < length mem \<Longrightarrow>
   circ_read mem s (a + c) = circ_read mem s a @ circ_read mem ((s + a) mod length mem) c"
proof (induction a arbitrary: s)
  case 0
  then show ?case by simp
next
  case (Suc a)
  then have "0 < length mem"
    by (cases mem) simp_all
  then have "(s + 1) mod length mem < length mem"
    by simp
  then show ?case
    using Suc.IH [of "(s + 1) mod length mem"] by (simp add: mod_simps)
qed

lemma unat_pow32:
  assumes "N \<le> 16"
  shows "unat ((2 :: 32 word) ^ N) = 2 ^ N"
proof -
  have "(2::nat) ^ N \<le> 2 ^ 16"
    using assms by (intro power_increasing) simp_all
  then have "(2::nat) ^ N < 2 ^ 32"
    by simp
  moreover have "(2 :: 32 word) ^ N = of_nat (2 ^ N)"
    by simp
  ultimately show ?thesis
    by (simp only: unat_of_nat mod_less len_of_numeral_defs) simp
qed

lemma unat_ucast32: "unat (ucast (c :: 16 word) :: 32 word) = unat c"
proof -
  have "unat c < 2 ^ 16"
    using unsigned_less [of c] by simp
  then have "unat c < 2 ^ 32"
    by simp
  then show ?thesis
    by (simp add: unsigned_ucast_eq take_bit_nat_eq_self)
qed

lemma partialLen_of_unat:
  assumes "N \<le> 16" "unat c < 2 ^ N"
  shows "unat (partialLen_of (2 ^ N) c lt) = min (unat lt) (2 ^ N - unat c)"
proof -
  have c32: "unat (ucast c :: 32 word) = unat c"
    by (rule unat_ucast32)
  have "(ucast c :: 32 word) \<le> 2 ^ N"
    using assms by (simp add: word_le_nat_alt c32 unat_pow32)
  then have d: "unat ((2 :: 32 word) ^ N - ucast c) = 2 ^ N - unat c"
    using assms by (simp add: unat_sub c32 unat_pow32)
  have lt32: "unat (ucast lt :: 32 word) = unat lt"
    by (rule unat_ucast32)
  show ?thesis
  proof (cases "2 ^ N - unat c < unat lt")
    case True
    then have "(2 :: 32 word) ^ N - ucast c < ucast lt"
      by (simp add: word_less_nat_alt d lt32)
    moreover have "unat (ucast ((2 :: 32 word) ^ N - ucast c) :: 16 word) = 2 ^ N - unat c"
    proof -
      have "unat lt < 2 ^ LENGTH(16)"
        by (rule unsigned_less)
      then have "2 ^ N - unat c < (2::nat) ^ 16"
        using True by simp
      then show ?thesis
        by (simp add: unsigned_ucast_eq d take_bit_nat_eq_self)
    qed
    ultimately show ?thesis
      using True by (simp add: partialLen_of_def)
  next
    case False
    then have "\<not> (2 :: 32 word) ^ N - ucast c < ucast lt"
      by (simp add: word_less_nat_alt d lt32)
    then show ?thesis
      using False by (simp add: partialLen_of_def)
  qed
qed

section \<open>The bulk copies on an initialised buffer\<close>

lemma initialized_length_buf:
  "initialized N b \<Longrightarrow> 0 < N \<Longrightarrow> length_buf b = 2 ^ N"
  by (simp add: initialized_def)

lemma pushBack_loop_initialized:
  assumes "initialized N b" "memory b = Some mem"
    and "unat lt \<le> 2 ^ N - 1" "off + unat lt \<le> length data"
  shows "pushBack_loop b data off lt =
           Some (Inr (b\<lparr>memory := Some (circ_write mem (unat (back b))
                                          (take (unat lt) (drop off data))),
                         back := (back b + lt) AND mask N\<rparr>))"
  using assms
proof (induction "unat lt" arbitrary: b mem off lt rule: less_induct)
  case less
  note init = \<open>initialized N b\<close>
  note N16 = initialized_facts(1) [OF init]
  note msk = initialized_facts(2) [OF init]
  note bk = initialized_facts(6) [OF init]
  have len: "length mem = 2 ^ N"
    using init less.prems(2) by (rule initialized_memory)
  show ?case
  proof (cases "lt = 0")
    case True
    have "b\<lparr>memory := Some mem, back := back b\<rparr> = b"
      by (simp add: less.prems(2) [symmetric])
    then show ?thesis
      using True initialized_facts(4) [OF init]
      by (subst pushBack_loop.simps) simp
  next
    case False
    then have pos: "0 < unat lt"
      by (simp add: unat_gt_0)
    then have "0 < N"
      using less.prems(3) by (cases N) simp_all
    then have lb: "length_buf b = 2 ^ N"
      using init by (simp add: initialized_length_buf)
    define p where "p = partialLen_of (length_buf b) (back b) lt"
    have p: "unat p = min (unat lt) (2 ^ N - unat (back b))"
      unfolding p_def lb using N16 bk by (rule partialLen_of_unat)
    have p_pos: "0 < unat p" and p_le: "unat p \<le> unat lt"
      and p_fit: "unat (back b) + unat p \<le> length mem"
      using p pos bk len by simp_all
    have "p \<le> lt"
      using p_le by (simp add: word_le_nat_alt)
    then have rest: "unat (lt - p) = unat lt - unat p"
      by (simp add: unat_sub)
    define xs where "xs = take (unat p) (drop off data)"
    have lxs: "length xs = unat p"
      using p_le less.prems(4) by (simp add: xs_def)
    define mem1 where "mem1 = circ_write mem (unat (back b)) xs"
    have cp: "memcpy mem (unat (back b)) data off (unat p) = Inr mem1"
      using p_fit p_le less.prems(4) lxs
      by (simp add: memcpy_def mem1_def circ_write_linear xs_def)
    define b1 where "b1 = b\<lparr>memory := Some mem1, back := (back b + p) AND mask N\<rparr>"
    have init1: "initialized N b1"
      unfolding b1_def using init by (rule initialized_push) (simp add: mem1_def len)
    have mem_b1: "memory b1 = Some mem1"
      by (simp add: b1_def)
    have back1: "unat (back b1) = (unat (back b) + unat p) mod length mem"
      using N16 by (simp add: b1_def unat_add_mask len)
    have step: "pushBack_loop b data off lt = pushBack_loop b1 data (off + unat p) (lt - p)"
      using False less.prems(2) cp msk
      by (subst pushBack_loop.simps) (simp add: p_def [symmetric] b1_def promote_add_and word_neq_0_conv)
    have "pushBack_loop b1 data (off + unat p) (lt - p) =
            Some (Inr (b1\<lparr>memory := Some (circ_write mem1 (unat (back b1))
                               (take (unat (lt - p)) (drop (off + unat p) data))),
                           back := (back b1 + (lt - p)) AND mask N\<rparr>))"
    proof (rule less.hyps)
      show "initialized N b1" by (rule init1)
      show "memory b1 = Some mem1" by (rule mem_b1)
      show "unat (lt - p) < unat lt"
        using rest p_pos pos by simp
      show "unat (lt - p) \<le> 2 ^ N - 1"
        using rest less.prems(3) by simp
      show "off + unat p + unat (lt - p) \<le> length data"
        using rest p_le less.prems(4) by simp
    qed
    moreover have "circ_write mem1 (unat (back b1))
                     (take (unat (lt - p)) (drop (off + unat p) data))
                   = circ_write mem (unat (back b)) (take (unat lt) (drop off data))"
    proof -
      have "take (unat lt) (drop off data)
              = xs @ take (unat (lt - p)) (drop (off + unat p) data)"
        using p_le rest take_add [of "unat p" "unat lt - unat p" "drop off data"]
        by (simp add: xs_def add.commute)
      then show ?thesis
        using bk len lxs by (simp add: circ_write_append mem1_def back1)
    qed
    moreover have "(back b1 + (lt - p)) AND mask N = (back b + lt) AND mask N"
    proof -
      have "(back b1 + (lt - p)) AND mask N = ((back b + p) + (lt - p)) AND mask N"
        unfolding b1_def by (simp add: mask_eqs)
      then show ?thesis by simp
    qed
    ultimately show ?thesis
      using step by (simp add: b1_def)
  qed
qed


lemma popFront_loop_initialized:
  assumes "initialized N b" "memory b = Some mem"
    and "unat lt \<le> 2 ^ N - 1" "off + unat lt \<le> length data"
  shows "popFront_loop b data off lt =
           Some (Inr (take off data @ circ_read mem (unat (front b)) (unat lt)
                        @ drop (off + unat lt) data,
                      b\<lparr>front := (front b + lt) AND mask N\<rparr>))"
  using assms
proof (induction "unat lt" arbitrary: b off lt data rule: less_induct)
  case less
  note init = \<open>initialized N b\<close>
  note N16 = initialized_facts(1) [OF init]
  note msk = initialized_facts(2) [OF init]
  note fr = initialized_facts(7) [OF init]
  have len: "length mem = 2 ^ N"
    using init less.prems(2) by (rule initialized_memory)
  show ?case
  proof (cases "lt = 0")
    case True
    then show ?thesis
      using initialized_facts(5) [OF init]
      by (subst popFront_loop.simps) simp
  next
    case False
    then have pos: "0 < unat lt"
      by (simp add: unat_gt_0)
    then have "0 < N"
      using less.prems(3) by (cases N) simp_all
    then have lb: "length_buf b = 2 ^ N"
      using init by (simp add: initialized_length_buf)
    define p where "p = partialLen_of (length_buf b) (front b) lt"
    have p: "unat p = min (unat lt) (2 ^ N - unat (front b))"
      unfolding p_def lb using N16 fr by (rule partialLen_of_unat)
    have p_pos: "0 < unat p" and p_le: "unat p \<le> unat lt"
      and p_fit: "unat (front b) + unat p \<le> length mem"
      using p pos fr len by simp_all
    have "p \<le> lt"
      using p_le by (simp add: word_le_nat_alt)
    then have rest: "unat (lt - p) = unat lt - unat p"
      by (simp add: unat_sub)
    define ys where "ys = circ_read mem (unat (front b)) (unat p)"
    have lys: "length ys = unat p"
      by (simp add: ys_def)
    define data1 where "data1 = take off data @ ys @ drop (off + unat p) data"
    have cp: "memcpy data off mem (unat (front b)) (unat p) = Inr data1"
      using p_fit p_le less.prems(4)
      by (simp add: memcpy_def data1_def ys_def circ_read_linear)
    have ld1: "length data1 = length data"
      using p_le less.prems(4) by (simp add: data1_def lys)
    define b1 where "b1 = b\<lparr>front := (front b + p) AND mask N\<rparr>"
    have init1: "initialized N b1"
      unfolding b1_def using init by (rule initialized_pop)
    have mem_b1: "memory b1 = Some mem"
      by (simp add: b1_def less.prems(2))
    have front1: "unat (front b1) = (unat (front b) + unat p) mod length mem"
      using N16 by (simp add: b1_def unat_add_mask len)
    have step: "popFront_loop b data off lt = popFront_loop b1 data1 (off + unat p) (lt - p)"
      using False less.prems(2) cp msk
      by (subst popFront_loop.simps) (simp add: p_def [symmetric] b1_def promote_add_and word_neq_0_conv)
    have "popFront_loop b1 data1 (off + unat p) (lt - p) =
            Some (Inr (take (off + unat p) data1
                         @ circ_read mem (unat (front b1)) (unat (lt - p))
                         @ drop (off + unat p + unat (lt - p)) data1,
                       b1\<lparr>front := (front b1 + (lt - p)) AND mask N\<rparr>))"
    proof (rule less.hyps)
      show "initialized N b1" by (rule init1)
      show "memory b1 = Some mem" by (rule mem_b1)
      show "unat (lt - p) < unat lt"
        using rest p_pos pos by simp
      show "unat (lt - p) \<le> 2 ^ N - 1"
        using rest less.prems(3) by simp
      show "off + unat p + unat (lt - p) \<le> length data1"
        using rest p_le less.prems(4) ld1 by simp
    qed
    moreover have "take (off + unat p) data1 = take off data @ ys"
      using p_le less.prems(4) by (simp add: data1_def lys)
    moreover have "drop (off + unat p + unat (lt - p)) data1 = drop (off + unat lt) data"
      using p_le less.prems(4) rest by (simp add: data1_def lys add.commute)
    moreover have "ys @ circ_read mem (unat (front b1)) (unat (lt - p))
                     = circ_read mem (unat (front b)) (unat lt)"
      using fr len p_le rest circ_read_add [of "unat (front b)" mem "unat p" "unat lt - unat p"]
      by (simp add: ys_def front1)
    moreover have "(front b1 + (lt - p)) AND mask N = (front b + lt) AND mask N"
    proof -
      have "(front b1 + (lt - p)) AND mask N = ((front b + p) + (lt - p)) AND mask N"
        unfolding b1_def by (simp add: mask_eqs)
      then show ?thesis by simp
    qed
    ultimately show ?thesis
      using step by (simp add: b1_def)
  qed
qed

lemma unat_mask_minus:
  assumes "N \<le> 16" "unat (u :: 16 word) \<le> 2 ^ N - 1"
  shows "unat (mask N - u) = 2 ^ N - 1 - unat u"
proof -
  have "u \<le> mask N"
    using assms by (simp add: word_le_nat_alt unat_mask16)
  then show ?thesis
    using assms(1) by (simp add: unat_sub unat_mask16)
qed

lemma pushBack_initialized:
  assumes "initialized N b" "memory b = Some mem" "CircularBuffer_getUnreadSize b = Inr u"
    and "unat maxlen \<le> length data"
  shows "\<exists>n. unat n = min (unat maxlen) (2 ^ N - 1 - unat u) \<and>
           CircularBuffer_pushBack b data maxlen =
             Some (Inr (n, b\<lparr>memory := Some (circ_write mem (unat (back b)) (take (unat n) data)),
                              back := (back b + n) AND mask N\<rparr>))"
proof -
  note N16 = initialized_facts(1) [OF assms(1)]
  note msk = initialized_facts(2) [OF assms(1)]
  have free: "unat (mask N - u) = 2 ^ N - 1 - unat u"
    using N16 unread_le [OF assms(1,3)] by (rule unat_mask_minus)
  define n where "n = (if mask N - u > maxlen then maxlen else mask N - u)"
  have n: "unat n = min (unat maxlen) (2 ^ N - 1 - unat u)"
    using free by (auto simp add: n_def word_less_nat_alt)
  have "pushBack_loop b data 0 n =
          Some (Inr (b\<lparr>memory := Some (circ_write mem (unat (back b))
                                        (take (unat n) (drop 0 data))),
                        back := (back b + n) AND mask N\<rparr>))"
    using assms(1,2)
  proof (rule pushBack_loop_initialized)
    show "unat n \<le> 2 ^ N - 1" using n by simp
    show "0 + unat n \<le> length data" using n assms(4) by simp
  qed
  then have "CircularBuffer_pushBack b data maxlen =
             Some (Inr (n, b\<lparr>memory := Some (circ_write mem (unat (back b)) (take (unat n) data)),
                              back := (back b + n) AND mask N\<rparr>))"
    using assms(2,3) msk
    by (simp add: CircularBuffer_pushBack_def promote_sub n_def [symmetric] Let_def)
  with n show ?thesis by blast
qed

lemma popFront_initialized:
  assumes "initialized N b" "memory b = Some mem" "CircularBuffer_getUnreadSize b = Inr u"
    and "unat maxlen \<le> length data"
  shows "\<exists>n. unat n = min (unat maxlen) (unat u) \<and>
           CircularBuffer_popFront b data maxlen =
             Some (Inr (n, circ_read mem (unat (front b)) (unat n) @ drop (unat n) data,
                        b\<lparr>front := (front b + n) AND mask N\<rparr>))"
proof -
  define n where "n = (if u > maxlen then maxlen else u)"
  have n: "unat n = min (unat maxlen) (unat u)"
    by (auto simp add: n_def word_less_nat_alt)
  have "popFront_loop b data 0 n =
          Some (Inr (take 0 data @ circ_read mem (unat (front b)) (unat n)
                       @ drop (0 + unat n) data,
                     b\<lparr>front := (front b + n) AND mask N\<rparr>))"
    using assms(1,2)
  proof (rule popFront_loop_initialized)
    show "unat n \<le> 2 ^ N - 1" using n unread_le [OF assms(1,3)] by simp
    show "0 + unat n \<le> length data" using n assms(4) by simp
  qed
  then have "CircularBuffer_popFront b data maxlen =
             Some (Inr (n, circ_read mem (unat (front b)) (unat n) @ drop (unat n) data,
                        b\<lparr>front := (front b + n) AND mask N\<rparr>))"
    using assms(2,3)
    by (simp add: CircularBuffer_popFront_def n_def [symmetric] Let_def)
  with n show ?thesis by blast
qed

section \<open>Sequences of single-element calls\<close>

lemma mod_shift_neq:
  assumes "s < (L::nat)" "0 < d" "d < L"
  shows "(s + d) mod L \<noteq> s"
proof (cases "s + d < L")
  case True
  then show ?thesis using assms by simp
next
  case False
  then have "(s + d) mod L = s + d - L"
    using assms by (simp add: mod_if)
  then show ?thesis using assms False by simp
qed

lemma circ_write_nth_other:
  "s < length mem \<Longrightarrow> \<forall>k<length xs. (s + k) mod length mem \<noteq> j \<Longrightarrow>
   circ_write mem s xs ! j = mem ! j"
proof (induction xs arbitrary: mem s)
  case Nil
  then show ?case by simp
next
  case (Cons x xs)
  have pos: "0 < length mem"
    using Cons.prems(1) by (cases mem) simp_all
  have "s mod length mem \<noteq> j"
    using Cons.prems(2) by force
  then have sj: "s \<noteq> j"
    using Cons.prems(1) by simp
  have "circ_write (mem[s := x]) ((s + 1) mod length mem) xs ! j = (mem[s := x]) ! j"
  proof (rule Cons.IH)
    show "(s + 1) mod length mem < length (mem[s := x])"
      using pos by simp
    show "\<forall>k<length xs. ((s + 1) mod length mem + k) mod length (mem[s := x]) \<noteq> j"
    proof (intro allI impI)
      fix k assume "k < length xs"
      then have "(s + Suc k) mod length mem \<noteq> j"
        using Cons.prems(2) by (metis Suc_less_eq length_Cons)
      then show "((s + 1) mod length mem + k) mod length (mem[s := x]) \<noteq> j"
        by (simp add: mod_simps)
    qed
  qed
  then show ?case
    using sj by simp
qed

lemma circ_fifo:
  "s < length mem \<Longrightarrow> length xs \<le> length mem \<Longrightarrow>
   circ_read (circ_write mem s xs) s (length xs) = xs"
proof (induction xs arbitrary: mem s)
  case Nil
  then show ?case by simp
next
  case (Cons x xs)
  have pos: "0 < length mem"
    using Cons.prems(1) by (cases mem) simp_all
  define s' where "s' = (s + 1) mod length mem"
  define W where "W = circ_write (mem[s := x]) s' xs"
  have s': "s' < length (mem[s := x])"
    using pos by (simp add: s'_def)
  have "circ_read W s' (length xs) = xs"
    unfolding W_def using s' Cons.prems(2) by (intro Cons.IH) simp_all
  moreover have "W ! s = x"
  proof -
    have "\<forall>k<length xs. (s' + k) mod length (mem[s := x]) \<noteq> s"
    proof (intro allI impI)
      fix k assume "k < length xs"
      then have "(s + Suc k) mod length mem \<noteq> s"
        using Cons.prems by (intro mod_shift_neq) simp_all
      then show "(s' + k) mod length (mem[s := x]) \<noteq> s"
        by (simp add: s'_def mod_simps)
    qed
    then have "W ! s = (mem[s := x]) ! s"
      unfolding W_def using s' by (rule circ_write_nth_other [rotated])
    then show ?thesis
      using Cons.prems(1) by simp
  qed
  ultimately show ?case
    by (simp add: W_def s'_def)
qed

lemma push_each_initialized:
  assumes "initialized N b" "memory b = Some mem" "CircularBuffer_getUnreadSize b = Inr u"
    and "unat u + length xs \<le> 2 ^ N - 1"
  shows "push_each b xs =
           Inr (replicate (length xs) True,
                b\<lparr>memory := Some (circ_write mem (unat (back b)) xs),
                  back := (back b + of_nat (length xs)) AND mask N\<rparr>)"
  using assms
proof (induction xs arbitrary: b mem u)
  case Nil
  have "b\<lparr>memory := Some mem, back := back b\<rparr> = b"
    by (simp add: Nil.prems(2) [symmetric])
  then show ?case
    using initialized_facts(4) [OF Nil.prems(1)] by simp
next
  case (Cons x xs)
  note init = Cons.prems(1)
  note N16 = initialized_facts(1) [OF init]
  have len: "length mem = 2 ^ N"
    using init Cons.prems(2) by (rule initialized_memory)
  define b1 where "b1 = b\<lparr>memory := Some (mem[unat (back b) := x]),
                           back := (back b + 1) AND mask N\<rparr>"
  have one: "unat u + unat (1 :: 16 word) \<le> 2 ^ N - 1"
    using Cons.prems(4) by simp
  have push: "CircularBuffer_pushBackByte b x = Inr (True, b1)"
    unfolding b1_def using init Cons.prems(2,3)
    by (rule pushBackByte_space) (use Cons.prems(4) in simp)
  have init1: "initialized N b1"
    unfolding b1_def using init by (rule initialized_push) (simp add: len)
  have mem1: "memory b1 = Some (mem[unat (back b) := x])"
    by (simp add: b1_def)
  have u1: "CircularBuffer_getUnreadSize b1 = Inr (u + 1)"
    unfolding b1_def using init Cons.prems(3) one by (rule unread_push)
  have "unat (u + 1) = unat u + 1"
    using no_overflow_add(1) [OF N16 one] by simp
  then have "unat (u + 1) + length xs \<le> 2 ^ N - 1"
    using Cons.prems(4) by simp
  with init1 mem1 u1 have "push_each b1 xs =
           Inr (replicate (length xs) True,
                b1\<lparr>memory := Some (circ_write (mem[unat (back b) := x]) (unat (back b1)) xs),
                   back := (back b1 + of_nat (length xs)) AND mask N\<rparr>)"
    by (rule Cons.IH)
  moreover have "unat (back b1) = (unat (back b) + 1) mod length mem"
    using N16 unat_add_mask [of N "back b" 1] by (simp add: b1_def len)
  moreover have "(back b1 + of_nat (length xs)) AND mask N
                   = (back b + of_nat (length (x # xs))) AND mask N"
  proof -
    have "(back b1 + of_nat (length xs)) AND mask N
            = ((back b + 1) + of_nat (length xs)) AND mask N"
      unfolding b1_def by (simp add: mask_eqs)
    then show ?thesis by (simp add: add.assoc)
  qed
  ultimately show ?case
    using push by (simp add: b1_def)
qed

lemma pop_each_initialized:
  assumes "initialized N b" "memory b = Some mem" "CircularBuffer_getUnreadSize b = Inr u"
    and "length ds \<le> unat u"
  shows "pop_each b ds =
           Inr (replicate (length ds) True,
                circ_read mem (unat (front b)) (length ds),
                b\<lparr>front := (front b + of_nat (length ds)) AND mask N\<rparr>)"
  using assms
proof (induction ds arbitrary: b u)
  case Nil
  then show ?case
    using initialized_facts(5) [OF Nil.prems(1)] by simp
next
  case (Cons d ds)
  note init = Cons.prems(1)
  note N16 = initialized_facts(1) [OF init]
  have len: "length mem = 2 ^ N"
    using init Cons.prems(2) by (rule initialized_memory)
  have "u \<noteq> 0"
    using Cons.prems(4) by auto
  then have ne: "back b \<noteq> front b"
    using empty_iff [OF init Cons.prems(3)] by simp
  have one: "1 \<le> u"
    using \<open>u \<noteq> 0\<close> by (simp add: word_le_nat_alt unat_gt_0 Suc_le_eq)
  define b1 where "b1 = b\<lparr>front := (front b + 1) AND mask N\<rparr>"
  have pop: "CircularBuffer_popFrontByte b d = Inr (True, mem ! unat (front b), b1)"
    unfolding b1_def using init Cons.prems(2) ne by (rule popFrontByte_data)
  have init1: "initialized N b1"
    unfolding b1_def using init by (rule initialized_pop)
  have mem1: "memory b1 = Some mem"
    by (simp add: b1_def Cons.prems(2))
  have u1: "CircularBuffer_getUnreadSize b1 = Inr (u - 1)"
    unfolding b1_def using init Cons.prems(3) one by (rule unread_pop)
  have "unat (u - 1) = unat u - 1"
    using one by (simp add: unat_sub)
  then have "length ds \<le> unat (u - 1)"
    using Cons.prems(4) by simp
  with init1 mem1 u1 have "pop_each b1 ds =
           Inr (replicate (length ds) True,
                circ_read mem (unat (front b1)) (length ds),
                b1\<lparr>front := (front b1 + of_nat (length ds)) AND mask N\<rparr>)"
    by (rule Cons.IH)
  moreover have "unat (front b1) = (unat (front b) + 1) mod length mem"
    using N16 unat_add_mask [of N "front b" 1] by (simp add: b1_def len)
  moreover have "(front b1 + of_nat (length ds)) AND mask N
                   = (front b + of_nat (length (d # ds))) AND mask N"
  proof -
    have "(front b1 + of_nat (length ds)) AND mask N
            = ((front b + 1) + of_nat (length ds)) AND mask N"
      unfolding b1_def by (simp add: mask_eqs)
    then show ?thesis by (simp add: add.assoc)
  qed
  ultimately show ?case
    using pop by (simp add: b1_def)
qed

lemma initialized_fault:
  "initialized N b \<Longrightarrow> initialized N (b\<lparr>faultFlag := f\<rparr>)"
  by (auto simp add: initialized_def)

lemma unread_fault:
  "CircularBuffer_getUnreadSize (b\<lparr>faultFlag := f\<rparr>) = CircularBuffer_getUnreadSize b"
  by (simp add: CircularBuffer_getUnreadSize_def read_word_def)

lemma init_initialized:
  assumes "N \<le> 16"
  shows "CircularBuffer_init m (of_nat N) =
           Inr \<lparr> back = 0, front = 0, faultFlag = 0, lengthMask = mask N,
                 length_buf = (if N = 0 then 0 else 2 ^ N), memory = m \<rparr>"
proof -
  have n8: "unat (of_nat N :: 8 word) = N"
    using assms by (simp add: unat_of_nat)
  then have le: "(of_nat N :: 8 word) \<le> 16"
    using assms by (simp add: word_le_nat_alt)
  have z: "(of_nat N :: 8 word) = 0 \<longleftrightarrow> N = 0"
  proof
    assume "(of_nat N :: 8 word) = 0"
    then have "unat (of_nat N :: 8 word) = 0"
      by (simp only: unat_0)
    then show "N = 0"
      by (simp only: n8)
  next
    assume "N = 0"
    then show "(of_nat N :: 8 word) = 0"
      by simp
  qed
  have "(ucast (mask N :: 16 word) :: 32 word) = mask N"
    using assms by (simp add: ucast_mask_eq min_def)
  then have "(ucast (mask N :: 16 word) :: 32 word) + 1 = 2 ^ N"
    by (simp add: mask_eq_exp_minus_1)
  moreover have "(ucast ((2 :: 32 word) ^ N - 1) :: 16 word) = mask N"
    using mask_init [OF assms] by simp
  ultimately show ?thesis
    using le z by (simp add: CircularBuffer_init_def n8 Let_def)
qed

lemma run_ops_invariant:
  assumes "initialized N b" "CircularBuffer_getUnreadSize b = Inr u"
    and "pops \<le> pushes" "unat u = pushes - pops"
  shows "\<exists>pushes' pops' b' u'.
           run_ops ops pushes pops b = Inr (pushes', pops', b') \<and>
           initialized N b' \<and> CircularBuffer_getUnreadSize b' = Inr u' \<and>
           pops' \<le> pushes' \<and> unat u' = pushes' - pops'"
  using assms
proof (induction ops arbitrary: b u pushes pops)
  case Nil
  then show ?case by simp
next
  case (Cons a ops)
  note init = Cons.prems(1)
  note N16 = initialized_facts(1) [OF init]
  obtain mem where mem: "memory b = Some mem"
    using initialized_facts(3) [OF init] by auto
  have len: "length mem = 2 ^ N"
    using init mem by (rule initialized_memory)
  show ?case
  proof (cases a)
    case (Push x)
    show ?thesis
    proof (cases "unat u < 2 ^ N - 1")
      case True
      define b1 where "b1 = b\<lparr>memory := Some (mem[unat (back b) := x]),
                               back := (back b + 1) AND mask N\<rparr>"
      have one: "unat u + unat (1 :: 16 word) \<le> 2 ^ N - 1"
        using True by simp
      have "CircularBuffer_pushBackByte b x = Inr (True, b1)"
        unfolding b1_def using init mem Cons.prems(2) True by (rule pushBackByte_space)
      then have run: "run_ops (a # ops) pushes pops b = run_ops ops (pushes + 1) pops b1"
        using Push by simp
      have "initialized N b1"
        unfolding b1_def using init by (rule initialized_push) (simp add: len)
      moreover have "CircularBuffer_getUnreadSize b1 = Inr (u + 1)"
        unfolding b1_def using init Cons.prems(2) one by (rule unread_push)
      moreover have "pops \<le> pushes + 1"
        using Cons.prems(3) by simp
      moreover have "unat (u + 1) = pushes + 1 - pops"
        using no_overflow_add(1) [OF N16 one] Cons.prems(3,4) by simp
      ultimately show ?thesis
        unfolding run by (rule Cons.IH)
    next
      case False
      then have full: "unat u = 2 ^ N - 1"
        using unread_le [OF init Cons.prems(2)] by simp
      have "CircularBuffer_pushBackByte b x = Inr (False, b\<lparr>faultFlag := 1\<rparr>)"
        using init Cons.prems(2) full by (rule pushBackByte_full)
      then have run: "run_ops (a # ops) pushes pops b
                        = run_ops ops pushes pops (b\<lparr>faultFlag := 1\<rparr>)"
        using Push by simp
      have "initialized N (b\<lparr>faultFlag := 1\<rparr>)"
        using init by (rule initialized_fault)
      moreover have "CircularBuffer_getUnreadSize (b\<lparr>faultFlag := 1\<rparr>) = Inr u"
        using Cons.prems(2) by (simp add: unread_fault)
      ultimately show ?thesis
        unfolding run using Cons.prems(3,4) by (rule Cons.IH)
    qed
  next
    case Pop
    show ?thesis
    proof (cases "back b = front b")
      case True
      have "CircularBuffer_popFrontByte b 0 = Inr (False, 0, b)"
        using initialized_facts(3) [OF init] True by (rule popFrontByte_empty)
      then have run: "run_ops (a # ops) pushes pops b = run_ops ops pushes pops b"
        using Pop by simp
      show ?thesis
        unfolding run using Cons.prems by (rule Cons.IH)
    next
      case False
      then have "u \<noteq> 0"
        using empty_iff [OF init Cons.prems(2)] by simp
      then have one: "1 \<le> u"
        by (simp add: word_le_nat_alt unat_gt_0 Suc_le_eq)
      then have dec: "unat (u - 1) = unat u - 1" and pos: "0 < unat u"
        using \<open>u \<noteq> 0\<close> by (simp_all add: unat_sub unat_gt_0)
      define b1 where "b1 = b\<lparr>front := (front b + 1) AND mask N\<rparr>"
      have "CircularBuffer_popFrontByte b 0 = Inr (True, mem ! unat (front b), b1)"
        unfolding b1_def using init mem False by (rule popFrontByte_data)
      then have run: "run_ops (a # ops) pushes pops b = run_ops ops pushes (pops + 1) b1"
        using Pop by simp
      have "initialized N b1"
        unfolding b1_def using init by (rule initialized_pop)
      moreover have "CircularBuffer_getUnreadSize b1 = Inr (u - 1)"
        unfolding b1_def using init Cons.prems(2) one by (rule unread_pop)
      moreover have "pops + 1 \<le> pushes"
        using pos Cons.prems(4) by simp
      moreover have "unat (u - 1) = pushes - (pops + 1)"
        using dec Cons.prems(4) by simp
      ultimately show ?thesis
        unfolding run by (rule Cons.IH)
    qed
  qed
qed

lemma unat_eq_numeral16:
  "unat (n :: 16 word) = k \<Longrightarrow> n = of_nat k"
  by auto

lemma replicate_3: "replicate 3 x = [x, x, x]"
  by (simp add: numeral_3_eq_3)









section \<open>Claims\<close>

text \<open>
  C1. For every capacity exponent \<open>N\<close> from 1 to 16, every store of \<open>2 ^ N\<close> bytes and
  every sequence of single-element pushes and pops run on the freshly initialised
  buffer, the run returns, and afterwards \<open>CircularBuffer_getUnreadSize\<close> returns the
  number of pushes that returned true minus the number of pops that returned true;
  that value is at most \<open>2 ^ N - 1\<close>. (Every prefix of a sequence is a sequence, so
  this holds after every call.)
\<close>

theorem unread_is_pushes_minus_pops:
  assumes "1 \<le> N" "N \<le> 16" "length mem = 2 ^ N"
  shows "\<exists>b0 pushes pops b u.
           CircularBuffer_init (Some mem) (of_nat N) = Inr b0 \<and>
           run_ops ops 0 0 b0 = Inr (pushes, pops, b) \<and>
           CircularBuffer_getUnreadSize b = Inr u \<and>
           pops \<le> pushes \<and> unat u = pushes - pops \<and> unat u \<le> 2 ^ N - 1"
proof -
  define b0 where "b0 = \<lparr> back = 0, front = 0, faultFlag = 0, lengthMask = mask N,
                 length_buf = (if N = 0 then 0 else 2 ^ N), memory = Some mem \<rparr>"
  have i0: "CircularBuffer_init (Some mem) (of_nat N) = Inr b0"
    unfolding b0_def using assms(2) by (rule init_initialized)
  have init: "initialized N b0"
    using assms by (simp add: initialized_def b0_def)
  have u0: "CircularBuffer_getUnreadSize b0 = Inr 0"
    using initialized_unread [OF init] by (simp add: b0_def)
  obtain pushes pops b u where
    "run_ops ops 0 0 b0 = Inr (pushes, pops, b)" "initialized N b"
    "CircularBuffer_getUnreadSize b = Inr u" "pops \<le> pushes" "unat u = pushes - pops"
    using run_ops_invariant [OF init u0, of 0 0 ops] by auto
  moreover from this have "unat u \<le> 2 ^ N - 1"
    using unread_le by blast
  ultimately show ?thesis
    using i0 by blast
qed

theorem unread_is_pushes_minus_pops_witness:
  "\<exists>b0 pushes pops b u.
     CircularBuffer_init (Some [0, 0, 0, 0]) 2 = Inr b0 \<and>
     run_ops [Push 1, Push 2, Pop, Push 3, Push 4, Push 5, Pop] 0 0 b0 = Inr (pushes, pops, b) \<and>
     CircularBuffer_getUnreadSize b = Inr u \<and>
     pops \<le> pushes \<and> unat u = pushes - pops \<and> unat u \<le> 3"
  using unread_is_pushes_minus_pops
    [of 2 "[0, 0, 0, 0]" "[Push 1, Push 2, Pop, Push 3, Push 4, Push 5, Pop]"]
  by simp

text \<open>
  C7. For every buffer whose store pointer is not null (the function's own assertion)
  and every argument \<open>clearBuffer\<close>, \<open>CircularBuffer_checkAndClearFault\<close> returns
  whether the fault flag was set at call time and leaves the flag cleared; with
  \<open>clearBuffer\<close> true it also sets \<open>front\<close> to \<open>back\<close>, so that the unread size is 0,
  and with \<open>clearBuffer\<close> false it changes no cursor. A second call with
  \<open>clearBuffer\<close> false right after any call returns false and changes nothing, so two
  calls in a row return true at most once, and both return false when no fault was
  pending.
\<close>

theorem checkAndClearFault_returns_and_clears:
  assumes "memory b \<noteq> None"
  shows "CircularBuffer_checkAndClearFault b clearBuffer =
           Inr (faultFlag b \<noteq> 0,
                b\<lparr>front := (if clearBuffer then back b else front b), faultFlag := 0\<rparr>)
         \<and> CircularBuffer_getUnreadSize (b\<lparr>front := back b, faultFlag := 0\<rparr>) = Inr 0
         \<and> CircularBuffer_checkAndClearFault
               (b\<lparr>front := (if clearBuffer then back b else front b), faultFlag := 0\<rparr>) False
             = Inr (False, b\<lparr>front := (if clearBuffer then back b else front b), faultFlag := 0\<rparr>)
         \<and> CircularBuffer_checkAndClearFault (b\<lparr>faultFlag := 0\<rparr>) False
             = Inr (False, b\<lparr>faultFlag := 0\<rparr>)"
proof -
  have "b\<lparr>faultFlag := 0\<rparr> = b" if "faultFlag b = 0"
    using that by simp
  then have "CircularBuffer_checkAndClearFault b clearBuffer =
           Inr (faultFlag b \<noteq> 0,
                b\<lparr>front := (if clearBuffer then back b else front b), faultFlag := 0\<rparr>)"
    using assms by (auto simp add: CircularBuffer_checkAndClearFault_def)
  moreover have "CircularBuffer_getUnreadSize (b\<lparr>front := back b, faultFlag := 0\<rparr>) = Inr 0"
    using assms by (simp add: getUnreadSize_eq)
  moreover have "CircularBuffer_checkAndClearFault b' False = Inr (False, b')"
    if "memory b' \<noteq> None" "faultFlag b' = 0" for b'
    using that by (simp add: CircularBuffer_checkAndClearFault_def)
  ultimately show ?thesis
    using assms by simp
qed

theorem checkAndClearFault_returns_and_clears_witness:
  "CircularBuffer_checkAndClearFault
     \<lparr>back = 5, front = 2, faultFlag = 1, lengthMask = 7, length_buf = 8,
      memory = Some [1, 2, 3, 4, 5, 6, 7, 8]\<rparr> True
   = Inr (True, \<lparr>back = 5, front = 5, faultFlag = 0, lengthMask = 7, length_buf = 8,
                 memory = Some [1, 2, 3, 4, 5, 6, 7, 8]\<rparr>)
   \<and> CircularBuffer_checkAndClearFault
        \<lparr>back = 5, front = 5, faultFlag = 0, lengthMask = 7, length_buf = 8,
         memory = Some [1, 2, 3, 4, 5, 6, 7, 8]\<rparr> False
      = Inr (False, \<lparr>back = 5, front = 5, faultFlag = 0, lengthMask = 7, length_buf = 8,
                     memory = Some [1, 2, 3, 4, 5, 6, 7, 8]\<rparr>)"
  using checkAndClearFault_returns_and_clears
    [of "\<lparr>back = 5, front = 2, faultFlag = 1, lengthMask = 7, length_buf = 8,
          memory = Some [1, 2, 3, 4, 5, 6, 7, 8]\<rparr>" True]
  by simp

text \<open>
  C10. On a buffer whose store pointer is not null and whose cursors are equal (the
  buffer is empty), \<open>CircularBuffer_popFrontByte\<close> returns false, returns the buffer
  object unchanged in every field, and leaves the caller's destination byte as it was.
\<close>

theorem popFrontByte_empty_unchanged:
  assumes "memory b \<noteq> None" and "back b = front b"
  shows "CircularBuffer_popFrontByte b d = Inr (False, d, b)"
  using assms by (rule popFrontByte_empty)

theorem popFrontByte_empty_unchanged_witness:
  "CircularBuffer_popFrontByte
     \<lparr>back = 3, front = 3, faultFlag = 0, lengthMask = 7, length_buf = 8,
      memory = Some [1, 2, 3, 4, 5, 6, 7, 8]\<rparr> 42
   = Inr (False, 42,
          \<lparr>back = 3, front = 3, faultFlag = 0, lengthMask = 7, length_buf = 8,
           memory = Some [1, 2, 3, 4, 5, 6, 7, 8]\<rparr>)"
  using popFrontByte_empty_unchanged
    [of "\<lparr>back = 3, front = 3, faultFlag = 0, lengthMask = 7, length_buf = 8,
          memory = Some [1, 2, 3, 4, 5, 6, 7, 8]\<rparr>" 42]
  by simp

text \<open>
  C2. On an initialised buffer of capacity \<open>2 ^ N\<close> with \<open>N \<ge> 1\<close>, store \<open>mem\<close> and unread
  size \<open>u\<close>: when \<open>u\<close> is below \<open>2 ^ N - 1\<close>, \<open>CircularBuffer_pushBackByte\<close> writes the
  byte at index \<open>back\<close>, advances \<open>back\<close> to \<open>(back + 1) AND lengthMask\<close>, changes no other
  field (the fault flag stays as it was) and returns true; when \<open>u\<close> equals
  \<open>2 ^ N - 1\<close> it only sets the fault flag and returns false. In particular, from an
  empty buffer \<open>2 ^ N - 1\<close> pushes all return true, the next push returns false and
  sets the fault flag, and the unread size is then \<open>2 ^ N - 1\<close>.
\<close>

theorem pushBackByte_space_or_full:
  assumes "initialized N b" and "1 \<le> N" and "memory b = Some mem"
    and "CircularBuffer_getUnreadSize b = Inr u"
  shows "(unat u < 2 ^ N - 1 \<longrightarrow>
            CircularBuffer_pushBackByte b x =
              Inr (True, b\<lparr>memory := Some (mem[unat (back b) := x]),
                           back := (back b + 1) AND lengthMask b\<rparr>))
         \<and> (unat u = 2 ^ N - 1 \<longrightarrow>
            CircularBuffer_pushBackByte b x = Inr (False, b\<lparr>faultFlag := 1\<rparr>))
         \<and> (back b = front b \<and> length xs = 2 ^ N - 1 \<longrightarrow>
            (\<exists>b' u'. push_each b xs = Inr (replicate (2 ^ N - 1) True, b')
                \<and> CircularBuffer_pushBackByte b' x = Inr (False, b'\<lparr>faultFlag := 1\<rparr>)
                \<and> CircularBuffer_getUnreadSize (b'\<lparr>faultFlag := 1\<rparr>) = Inr u'
                \<and> unat u' = 2 ^ N - 1))"
proof (intro conjI impI)
  assume "unat u < 2 ^ N - 1"
  with assms(1,3,4) show "CircularBuffer_pushBackByte b x =
              Inr (True, b\<lparr>memory := Some (mem[unat (back b) := x]),
                           back := (back b + 1) AND lengthMask b\<rparr>)"
    unfolding initialized_facts(2) [OF assms(1)] by (rule pushBackByte_space)
next
  assume "unat u = 2 ^ N - 1"
  with assms(1,4) show "CircularBuffer_pushBackByte b x = Inr (False, b\<lparr>faultFlag := 1\<rparr>)"
    by (rule pushBackByte_full)
next
  assume e: "back b = front b \<and> length xs = 2 ^ N - 1"
  note N16 = initialized_facts(1) [OF assms(1)]
  have len: "length mem = 2 ^ N"
    using assms(1,3) by (rule initialized_memory)
  have u0: "u = 0"
    using e empty_iff [OF assms(1,4)] by simp
  define k :: "16 word" where "k = of_nat (length xs)"
  have "(2::nat) ^ N \<le> 2 ^ 16"
    using N16 by (intro power_increasing) simp_all
  then have "length xs < 2 ^ 16"
    using e by simp
  then have k: "unat k = length xs"
    by (simp add: k_def unat_of_nat)
  define b' where "b' = b\<lparr>memory := Some (circ_write mem (unat (back b)) xs),
                           back := (back b + k) AND mask N\<rparr>"
  have fit: "unat u + unat k \<le> 2 ^ N - 1"
    using e u0 k by simp
  have "push_each b xs = Inr (replicate (length xs) True, b')"
    unfolding b'_def k_def using assms(1,3,4) by (rule push_each_initialized) (use fit k in simp)
  then have p: "push_each b xs = Inr (replicate (2 ^ N - 1) True, b')"
    using e by simp
  have init': "initialized N b'"
    unfolding b'_def using assms(1) by (rule initialized_push) (simp add: len)
  have u': "CircularBuffer_getUnreadSize b' = Inr (u + k)"
    unfolding b'_def using assms(1,4) fit by (rule unread_push)
  have full: "unat (u + k) = 2 ^ N - 1"
    using no_overflow_add(1) [OF N16 fit] u0 k e by simp
  have "CircularBuffer_pushBackByte b' x = Inr (False, b'\<lparr>faultFlag := 1\<rparr>)"
    using init' u' full by (rule pushBackByte_full)
  moreover have "CircularBuffer_getUnreadSize (b'\<lparr>faultFlag := 1\<rparr>) = Inr (u + k)"
    using u' by (simp add: unread_fault)
  ultimately show "\<exists>b' u'. push_each b xs = Inr (replicate (2 ^ N - 1) True, b')
                \<and> CircularBuffer_pushBackByte b' x = Inr (False, b'\<lparr>faultFlag := 1\<rparr>)
                \<and> CircularBuffer_getUnreadSize (b'\<lparr>faultFlag := 1\<rparr>) = Inr u'
                \<and> unat u' = 2 ^ N - 1"
    using p full by blast
qed

theorem pushBackByte_space_or_full_witness:
  "CircularBuffer_pushBackByte
     \<lparr>back = 0, front = 0, faultFlag = 0, lengthMask = 3, length_buf = 4,
      memory = Some [0, 0, 0, 0]\<rparr> 9
   = Inr (True, \<lparr>back = 1, front = 0, faultFlag = 0, lengthMask = 3, length_buf = 4,
                 memory = Some [9, 0, 0, 0]\<rparr>)
   \<and> CircularBuffer_pushBackByte
     \<lparr>back = 3, front = 0, faultFlag = 0, lengthMask = 3, length_buf = 4,
      memory = Some [1, 2, 3, 0]\<rparr> 9
   = Inr (False, \<lparr>back = 3, front = 0, faultFlag = 1, lengthMask = 3, length_buf = 4,
                  memory = Some [1, 2, 3, 0]\<rparr>)
   \<and> (\<exists>b' u'. push_each
          \<lparr>back = 0, front = 0, faultFlag = 0, lengthMask = 3, length_buf = 4,
           memory = Some [0, 0, 0, 0]\<rparr> [1, 2, 3]
         = Inr ([True, True, True], b')
       \<and> CircularBuffer_pushBackByte b' 9 = Inr (False, b'\<lparr>faultFlag := 1\<rparr>)
       \<and> CircularBuffer_getUnreadSize (b'\<lparr>faultFlag := 1\<rparr>) = Inr u'
       \<and> unat u' = 3)"
proof -
  define b0 where "b0 = \<lparr>back = 0, front = 0, faultFlag = 0, lengthMask = 3, length_buf = 4,
      memory = Some [0, 0, 0, 0 :: 8 word]\<rparr>"
  define bF where "bF = \<lparr>back = 3, front = 0, faultFlag = 0, lengthMask = 3, length_buf = 4,
      memory = Some [1, 2, 3, 0 :: 8 word]\<rparr>"
  have i0: "initialized 2 b0" and iF: "initialized 2 bF"
    by (simp_all add: b0_def bF_def initialized_def mask_eq_exp_minus_1)
  have m0: "memory b0 = Some [0, 0, 0, 0]" and mF: "memory bF = Some [1, 2, 3, 0]"
    by (simp_all add: b0_def bF_def)
  have u0: "CircularBuffer_getUnreadSize b0 = Inr 0"
    and uF: "CircularBuffer_getUnreadSize bF = Inr 3"
    by (simp_all add: b0_def bF_def getUnreadSize_eq)
  have "CircularBuffer_pushBackByte b0 9
          = Inr (True, \<lparr>back = 1, front = 0, faultFlag = 0, lengthMask = 3, length_buf = 4,
                        memory = Some [9, 0, 0, 0]\<rparr>)
   \<and> CircularBuffer_pushBackByte bF 9
          = Inr (False, \<lparr>back = 3, front = 0, faultFlag = 1, lengthMask = 3, length_buf = 4,
                  memory = Some [1, 2, 3, 0]\<rparr>)
   \<and> (\<exists>b' u'. push_each b0 [1, 2, 3] = Inr ([True, True, True], b')
       \<and> CircularBuffer_pushBackByte b' 9 = Inr (False, b'\<lparr>faultFlag := 1\<rparr>)
       \<and> CircularBuffer_getUnreadSize (b'\<lparr>faultFlag := 1\<rparr>) = Inr u'
       \<and> unat u' = 3)"
    using pushBackByte_space_or_full [OF i0 _ m0 u0, of 9 "[1, 2, 3]"]
      pushBackByte_space_or_full [OF iF _ mF uF, of 9 "[1, 2, 3]"]
    by (simp add: b0_def bF_def replicate_3)
  then show ?thesis
    by (simp only: b0_def bF_def)
qed

text \<open>
  C3. FIFO round trip: on an empty initialised buffer, pushing the bytes \<open>xs\<close> one at a
  time, for any \<open>xs\<close> of at most \<open>2 ^ N - 1\<close> bytes, and then popping \<open>length xs\<close> times
  makes every push and every pop return true, and the popped bytes are \<open>xs\<close> in order.
\<close>

theorem fifo_round_trip:
  assumes "initialized N b" and "back b = front b"
    and "length xs \<le> 2 ^ N - 1" and "length ds = length xs"
  shows "\<exists>b1 b2. push_each b xs = Inr (replicate (length xs) True, b1)
           \<and> pop_each b1 ds = Inr (replicate (length xs) True, xs, b2)"
proof -
  note N16 = initialized_facts(1) [OF assms(1)]
  obtain mem where mem: "memory b = Some mem"
    using initialized_facts(3) [OF assms(1)] by auto
  have len: "length mem = 2 ^ N"
    using assms(1) mem by (rule initialized_memory)
  have u0: "CircularBuffer_getUnreadSize b = Inr 0"
    using initialized_unread [OF assms(1)] assms(2) by simp
  define k :: "16 word" where "k = of_nat (length xs)"
  have "(2::nat) ^ N \<le> 2 ^ 16"
    using N16 by (intro power_increasing) simp_all
  then have "length xs < 2 ^ 16"
    using assms(3) by simp
  then have k: "unat k = length xs"
    by (simp add: k_def unat_of_nat)
  define mem1 where "mem1 = circ_write mem (unat (back b)) xs"
  define b1 where "b1 = b\<lparr>memory := Some mem1, back := (back b + k) AND mask N\<rparr>"
  have fit: "unat (0 :: 16 word) + unat k \<le> 2 ^ N - 1"
    using assms(3) k by simp
  have p: "push_each b xs = Inr (replicate (length xs) True, b1)"
    unfolding b1_def k_def mem1_def using assms(1) mem u0
    by (rule push_each_initialized) (use assms(3) in simp)
  have init1: "initialized N b1"
    unfolding b1_def using assms(1) by (rule initialized_push) (simp add: len mem1_def)
  have m1: "memory b1 = Some mem1"
    by (simp add: b1_def)
  have u1: "CircularBuffer_getUnreadSize b1 = Inr (0 + k)"
    unfolding b1_def using assms(1) u0 fit by (rule unread_push)
  have "pop_each b1 ds =
           Inr (replicate (length ds) True,
                circ_read mem1 (unat (front b1)) (length ds),
                b1\<lparr>front := (front b1 + of_nat (length ds)) AND mask N\<rparr>)"
    using init1 m1 u1 by (rule pop_each_initialized) (simp add: k assms(4))
  moreover have "circ_read mem1 (unat (front b1)) (length ds) = xs"
  proof -
    have "front b1 = back b"
      by (simp add: b1_def assms(2))
    moreover have "unat (back b) < length mem"
      using initialized_facts(6) [OF assms(1)] len by simp
    ultimately show ?thesis
      using assms(3,4) len by (simp add: mem1_def circ_fifo)
  qed
  ultimately show ?thesis
    using p assms(4) by simp
qed

theorem fifo_round_trip_witness:
  "\<exists>b1 b2. push_each
       \<lparr>back = 2, front = 2, faultFlag = 0, lengthMask = 3, length_buf = 4,
        memory = Some [0, 0, 0, 0]\<rparr> [7, 8, 9]
      = Inr ([True, True, True], b1)
     \<and> pop_each b1 [0, 0, 0] = Inr ([True, True, True], [7, 8, 9], b2)"
proof -
  define b where "b = \<lparr>back = 2, front = 2, faultFlag = 0, lengthMask = 3, length_buf = 4,
      memory = Some [0, 0, 0, 0 :: 8 word]\<rparr>"
  have i: "initialized 2 b"
    by (simp add: b_def initialized_def mask_eq_exp_minus_1)
  have e: "back b = front b"
    by (simp add: b_def)
  have "\<exists>b1 b2. push_each b [7, 8, 9] = Inr ([True, True, True], b1)
     \<and> pop_each b1 [0, 0, 0] = Inr ([True, True, True], [7, 8, 9], b2)"
    using fifo_round_trip [OF i e, of "[7, 8, 9]" "[0, 0, 0]"]
    by (simp add: replicate_3)
  then show ?thesis
    by (simp only: b_def)
qed

text \<open>
  C4. On an initialised buffer with unread size \<open>u\<close>, and for source and destination
  regions of at least \<open>maxlen\<close> bytes, the bulk push of at most \<open>maxlen\<close> bytes returns, copies exactly \<open>min maxlen (2 ^ N - 1 - u)\<close> bytes from the source into
  the store from \<open>back\<close> on (wrapping at the end of the store), returns that count,
  advances \<open>back\<close> by it and leaves the fault flag as it was, also when the copy is
  truncated. The bulk pop returns, copies exactly \<open>min maxlen u\<close> bytes from \<open>front\<close> on
  into the destination, returns that count, advances \<open>front\<close> by it and leaves the
  store and the fault flag as they were.
\<close>

theorem bulk_truncates_without_fault:
  assumes "initialized N b" and "memory b = Some mem"
    and "CircularBuffer_getUnreadSize b = Inr u"
    and "unat maxlen \<le> length src" and "unat maxlen \<le> length dst"
  shows "(\<exists>n b'. CircularBuffer_pushBack b src maxlen = Some (Inr (n, b'))
            \<and> unat n = min (unat maxlen) (2 ^ N - 1 - unat u)
            \<and> memory b' = Some (circ_write mem (unat (back b)) (take (unat n) src))
            \<and> back b' = (back b + n) AND lengthMask b \<and> front b' = front b
            \<and> faultFlag b' = faultFlag b
            \<and> CircularBuffer_getUnreadSize b' = Inr (u + n) \<and> unat (u + n) = unat u + unat n)
         \<and> (\<exists>n dst' b'. CircularBuffer_popFront b dst maxlen = Some (Inr (n, dst', b'))
            \<and> unat n = min (unat maxlen) (unat u)
            \<and> dst' = circ_read mem (unat (front b)) (unat n) @ drop (unat n) dst
            \<and> front b' = (front b + n) AND lengthMask b \<and> back b' = back b
            \<and> memory b' = memory b
            \<and> faultFlag b' = faultFlag b
            \<and> CircularBuffer_getUnreadSize b' = Inr (u - n) \<and> unat (u - n) = unat u - unat n)"
proof (rule conjI)
  note N16 = initialized_facts(1) [OF assms(1)]
  note msk = initialized_facts(2) [OF assms(1)]
  obtain n where n: "unat n = min (unat maxlen) (2 ^ N - 1 - unat u)"
    and r: "CircularBuffer_pushBack b src maxlen =
             Some (Inr (n, b\<lparr>memory := Some (circ_write mem (unat (back b)) (take (unat n) src)),
                              back := (back b + n) AND mask N\<rparr>))"
    using pushBack_initialized [OF assms(1,2,3,4)] by blast
  have fit: "unat u + unat n \<le> 2 ^ N - 1"
    using n unread_le [OF assms(1,3)] by simp
  have "CircularBuffer_getUnreadSize
          (b\<lparr>memory := Some (circ_write mem (unat (back b)) (take (unat n) src)),
             back := (back b + n) AND mask N\<rparr>) = Inr (u + n)"
    using assms(1,3) fit by (rule unread_push)
  moreover have "unat (u + n) = unat u + unat n"
    using N16 fit by (rule no_overflow_add(1))
  ultimately show "\<exists>n b'. CircularBuffer_pushBack b src maxlen = Some (Inr (n, b'))
            \<and> unat n = min (unat maxlen) (2 ^ N - 1 - unat u)
            \<and> memory b' = Some (circ_write mem (unat (back b)) (take (unat n) src))
            \<and> back b' = (back b + n) AND lengthMask b \<and> front b' = front b
            \<and> faultFlag b' = faultFlag b
            \<and> CircularBuffer_getUnreadSize b' = Inr (u + n) \<and> unat (u + n) = unat u + unat n"
    using n r msk by simp
next
  note msk = initialized_facts(2) [OF assms(1)]
  obtain n where n: "unat n = min (unat maxlen) (unat u)"
    and r: "CircularBuffer_popFront b dst maxlen =
             Some (Inr (n, circ_read mem (unat (front b)) (unat n) @ drop (unat n) dst,
                        b\<lparr>front := (front b + n) AND mask N\<rparr>))"
    using popFront_initialized [OF assms(1,2,3,5)] by blast
  have le: "n \<le> u"
    using n by (simp add: word_le_nat_alt)
  have "CircularBuffer_getUnreadSize (b\<lparr>front := (front b + n) AND mask N\<rparr>) = Inr (u - n)"
    using assms(1,3) le by (rule unread_pop)
  moreover have "unat (u - n) = unat u - unat n"
    using le by (simp add: unat_sub)
  ultimately show "\<exists>n dst' b'. CircularBuffer_popFront b dst maxlen = Some (Inr (n, dst', b'))
            \<and> unat n = min (unat maxlen) (unat u)
            \<and> dst' = circ_read mem (unat (front b)) (unat n) @ drop (unat n) dst
            \<and> front b' = (front b + n) AND lengthMask b \<and> back b' = back b
            \<and> memory b' = memory b
            \<and> faultFlag b' = faultFlag b
            \<and> CircularBuffer_getUnreadSize b' = Inr (u - n) \<and> unat (u - n) = unat u - unat n"
    using n r msk by simp
qed

theorem bulk_truncates_without_fault_witness:
  "(\<exists>n b'. CircularBuffer_pushBack
              \<lparr>back = 6, front = 3, faultFlag = 0, lengthMask = 7, length_buf = 8,
               memory = Some [10, 11, 12, 13, 14, 15, 16, 17]\<rparr> [1, 2, 3, 4, 5, 6] 6
            = Some (Inr (n, b'))
      \<and> n = 4 \<and> memory b' = Some [3, 4, 12, 13, 14, 15, 1, 2]
      \<and> back b' = 2 \<and> front b' = 3 \<and> faultFlag b' = 0
      \<and> CircularBuffer_getUnreadSize b' = Inr 7)
   \<and> (\<exists>n dst' b'. CircularBuffer_popFront
              \<lparr>back = 6, front = 3, faultFlag = 0, lengthMask = 7, length_buf = 8,
               memory = Some [10, 11, 12, 13, 14, 15, 16, 17]\<rparr> [0, 0, 0, 0, 0, 0] 6
            = Some (Inr (n, dst', b'))
      \<and> n = 3 \<and> dst' = [13, 14, 15, 0, 0, 0]
      \<and> front b' = 6 \<and> back b' = 6 \<and> faultFlag b' = 0
      \<and> CircularBuffer_getUnreadSize b' = Inr 0)"
proof -
  define b where "b = \<lparr>back = 6, front = 3, faultFlag = 0, lengthMask = 7, length_buf = 8,
               memory = Some [10, 11, 12, 13, 14, 15, 16, 17 :: 8 word]\<rparr>"
  have i: "initialized 3 b"
    by (simp add: b_def initialized_def mask_eq_exp_minus_1)
  have m: "memory b = Some [10, 11, 12, 13, 14, 15, 16, 17]"
    by (simp add: b_def)
  have u: "CircularBuffer_getUnreadSize b = Inr 3"
    by (simp add: b_def getUnreadSize_eq)
  have w: "circ_write [10, 11, 12, 13, 14, 15, 16, 17] 6 [1, 2, 3, 4]
             = [3, 4, 12, 13, 14, 15, 1, 2 :: 8 word]"
    by code_simp
  have r: "circ_read [10, 11, 12, 13, 14, 15, 16, 17 :: 8 word] 3 3 = [13, 14, 15]"
    by code_simp
  have n4: "n = 4" if "unat n = 4" for n :: "16 word"
    using unat_eq_numeral16 [OF that] by simp
  have n3: "n = 3" if "unat n = 3" for n :: "16 word"
    using unat_eq_numeral16 [OF that] by simp
  have "(\<exists>n b'. CircularBuffer_pushBack b [1, 2, 3, 4, 5, 6] 6 = Some (Inr (n, b'))
      \<and> n = 4 \<and> memory b' = Some [3, 4, 12, 13, 14, 15, 1, 2]
      \<and> back b' = 2 \<and> front b' = 3 \<and> faultFlag b' = 0
      \<and> CircularBuffer_getUnreadSize b' = Inr 7)
   \<and> (\<exists>n dst' b'. CircularBuffer_popFront b [0, 0, 0, 0, 0, 0] 6 = Some (Inr (n, dst', b'))
      \<and> n = 3 \<and> dst' = [13, 14, 15, 0, 0, 0]
      \<and> front b' = 6 \<and> back b' = 6 \<and> faultFlag b' = 0
      \<and> CircularBuffer_getUnreadSize b' = Inr 0)"
    using bulk_truncates_without_fault [OF i m u, of 6 "[1, 2, 3, 4, 5, 6]" "[0, 0, 0, 0, 0, 0]"]
    apply simp
    apply (elim conjE exE)
    apply (drule n4)
    apply (drule n3)
    apply (simp add: w r b_def)
    done
  then show ?thesis
    by (simp only: b_def)
qed

text \<open>
  C5 (as amended). \<open>CircularBuffer_init\<close> accepts a null store with capacity exponent 0
  and resets both cursors, the fault flag, the mask and the length to 0. On that buffer
  every other operation (single and bulk push, single and bulk pop, the unread-size
  query, the fault check) fails its assertion that the store pointer is not null, and
  returns nothing. With exponent 0 and a store pointer that is not null no assertion
  fails: the unread size is 0, the single push returns false and sets the fault flag,
  the bulk push returns 0, the single pop returns false and leaves the destination as
  it was, and the bulk pop returns 0.
\<close>

theorem exponent_zero_buffer:
  "CircularBuffer_init None 0 =
     Inr \<lparr>back = 0, front = 0, faultFlag = 0, lengthMask = 0, length_buf = 0, memory = None\<rparr>
   \<and> CircularBuffer_pushBackByte
        \<lparr>back = 0, front = 0, faultFlag = 0, lengthMask = 0, length_buf = 0, memory = None\<rparr> x
      = Inl AssertionFailed
   \<and> CircularBuffer_pushBack
        \<lparr>back = 0, front = 0, faultFlag = 0, lengthMask = 0, length_buf = 0, memory = None\<rparr>
        src maxlen
      = Some (Inl AssertionFailed)
   \<and> CircularBuffer_popFrontByte
        \<lparr>back = 0, front = 0, faultFlag = 0, lengthMask = 0, length_buf = 0, memory = None\<rparr> d
      = Inl AssertionFailed
   \<and> CircularBuffer_popFront
        \<lparr>back = 0, front = 0, faultFlag = 0, lengthMask = 0, length_buf = 0, memory = None\<rparr>
        dst maxlen
      = Some (Inl AssertionFailed)
   \<and> CircularBuffer_getUnreadSize
        \<lparr>back = 0, front = 0, faultFlag = 0, lengthMask = 0, length_buf = 0, memory = None\<rparr>
      = Inl AssertionFailed
   \<and> CircularBuffer_checkAndClearFault
        \<lparr>back = 0, front = 0, faultFlag = 0, lengthMask = 0, length_buf = 0, memory = None\<rparr>
        clearBuffer
      = Inl AssertionFailed
   \<and> CircularBuffer_init (Some mem) 0 =
       Inr \<lparr>back = 0, front = 0, faultFlag = 0, lengthMask = 0, length_buf = 0,
            memory = Some mem\<rparr>
   \<and> CircularBuffer_getUnreadSize
        \<lparr>back = 0, front = 0, faultFlag = 0, lengthMask = 0, length_buf = 0, memory = Some mem\<rparr>
      = Inr 0
   \<and> CircularBuffer_pushBackByte
        \<lparr>back = 0, front = 0, faultFlag = 0, lengthMask = 0, length_buf = 0, memory = Some mem\<rparr> x
      = Inr (False,
             \<lparr>back = 0, front = 0, faultFlag = 1, lengthMask = 0, length_buf = 0,
              memory = Some mem\<rparr>)
   \<and> CircularBuffer_pushBack
        \<lparr>back = 0, front = 0, faultFlag = 0, lengthMask = 0, length_buf = 0, memory = Some mem\<rparr>
        src maxlen
      = Some (Inr (0,
             \<lparr>back = 0, front = 0, faultFlag = 0, lengthMask = 0, length_buf = 0,
              memory = Some mem\<rparr>))
   \<and> CircularBuffer_popFrontByte
        \<lparr>back = 0, front = 0, faultFlag = 0, lengthMask = 0, length_buf = 0, memory = Some mem\<rparr> d
      = Inr (False, d,
             \<lparr>back = 0, front = 0, faultFlag = 0, lengthMask = 0, length_buf = 0,
              memory = Some mem\<rparr>)
   \<and> CircularBuffer_popFront
        \<lparr>back = 0, front = 0, faultFlag = 0, lengthMask = 0, length_buf = 0, memory = Some mem\<rparr>
        dst maxlen
      = Some (Inr (0, dst,
             \<lparr>back = 0, front = 0, faultFlag = 0, lengthMask = 0, length_buf = 0,
              memory = Some mem\<rparr>))"
proof -
  have l1: "pushBack_loop b src 0 0 = Some (Inr b)" for b
    by (subst pushBack_loop.simps) simp
  have l2: "popFront_loop b dst 0 0 = Some (Inr (dst, b))" for b
    by (subst popFront_loop.simps) simp
  show ?thesis
    by (simp add: CircularBuffer_init_def CircularBuffer_pushBackByte_def
        CircularBuffer_pushBack_def CircularBuffer_popFrontByte_def CircularBuffer_popFront_def
        CircularBuffer_checkAndClearFault_def getUnreadSize_eq l1 l2)
       (simp add: CircularBuffer_getUnreadSize_def)
qed

text \<open>
  The claim C5 as it was stated fails: after \<open>CircularBuffer_init\<close> with a null store
  and exponent 0, the single-element push does not return false; its assertion fails.
\<close>

theorem unconfigured_push_counterexample:
  "CircularBuffer_init None 0 =
     Inr \<lparr>back = 0, front = 0, faultFlag = 0, lengthMask = 0, length_buf = 0, memory = None\<rparr>
   \<and> CircularBuffer_pushBackByte
        \<lparr>back = 0, front = 0, faultFlag = 0, lengthMask = 0, length_buf = 0, memory = None\<rparr> 1
      = Inl AssertionFailed"
  by (simp add: CircularBuffer_init_def CircularBuffer_pushBackByte_def)

text \<open>
  C6. On an initialised buffer with unread size \<open>u\<close> (and source and destination regions
  of at least \<open>maxlen\<close> bytes for the bulk operations), every operation returns, and:
  \<open>CircularBuffer_pushBackByte\<close> returns false exactly when the buffer is full
  (\<open>u = 2 ^ N - 1\<close>), and then the fault flag is set; when it returns true the flag is as
  it was. \<open>CircularBuffer_popFrontByte\<close>, \<open>CircularBuffer_pushBack\<close> and
  \<open>CircularBuffer_popFront\<close> leave the flag as it was, whether it was set or not
  (\<open>CircularBuffer_getUnreadSize\<close> returns a number only and has no buffer to change).
  \<open>CircularBuffer_checkAndClearFault\<close> leaves the flag cleared.
\<close>

theorem fault_flag_changes:
  assumes "initialized N b" and "CircularBuffer_getUnreadSize b = Inr u"
    and "unat maxlen \<le> length src" and "unat maxlen \<le> length dst"
  shows "(\<exists>ok b'. CircularBuffer_pushBackByte b x = Inr (ok, b')
            \<and> ok = (unat u < 2 ^ N - 1)
            \<and> faultFlag b' = (if ok then faultFlag b else 1))
         \<and> (\<exists>ok d' b'. CircularBuffer_popFrontByte b d = Inr (ok, d', b')
            \<and> faultFlag b' = faultFlag b)
         \<and> (\<exists>n b'. CircularBuffer_pushBack b src maxlen = Some (Inr (n, b'))
            \<and> faultFlag b' = faultFlag b)
         \<and> (\<exists>n dst' b'. CircularBuffer_popFront b dst maxlen = Some (Inr (n, dst', b'))
            \<and> faultFlag b' = faultFlag b)
         \<and> (\<exists>r b'. CircularBuffer_checkAndClearFault b clearBuffer = Inr (r, b')
            \<and> faultFlag b' = 0)"
proof -
  obtain mem where mem: "memory b = Some mem"
    using initialized_facts(3) [OF assms(1)] by auto
  have push: "\<exists>ok b'. CircularBuffer_pushBackByte b x = Inr (ok, b')
            \<and> ok = (unat u < 2 ^ N - 1)
            \<and> faultFlag b' = (if ok then faultFlag b else 1)"
  proof (cases "unat u < 2 ^ N - 1")
    case True
    then show ?thesis
      using pushBackByte_space [OF assms(1) mem assms(2), of x] by auto
  next
    case False
    then have "unat u = 2 ^ N - 1"
      using unread_le [OF assms(1,2)] by simp
    then show ?thesis
      using pushBackByte_full [OF assms(1,2), of x] by auto
  qed
  have pop: "\<exists>ok d' b'. CircularBuffer_popFrontByte b d = Inr (ok, d', b')
            \<and> faultFlag b' = faultFlag b"
  proof (cases "back b = front b")
    case True
    then show ?thesis
      using popFrontByte_empty [of b d] mem by auto
  next
    case False
    then show ?thesis
      using popFrontByte_data [OF assms(1) mem, of d] by auto
  qed
  have bpush: "\<exists>n b'. CircularBuffer_pushBack b src maxlen = Some (Inr (n, b'))
            \<and> faultFlag b' = faultFlag b"
    using pushBack_initialized [OF assms(1) mem assms(2,3)] by auto
  have bpop: "\<exists>n dst' b'. CircularBuffer_popFront b dst maxlen = Some (Inr (n, dst', b'))
            \<and> faultFlag b' = faultFlag b"
    using popFront_initialized [OF assms(1) mem assms(2,4)] by auto
  have clr: "\<exists>r b'. CircularBuffer_checkAndClearFault b clearBuffer = Inr (r, b')
            \<and> faultFlag b' = 0"
    using mem by (auto simp add: CircularBuffer_checkAndClearFault_def)
  from push pop bpush bpop clr show ?thesis
    by (intro conjI)
qed

theorem fault_flag_changes_witness:
  "(\<exists>ok b'. CircularBuffer_pushBackByte
       \<lparr>back = 2, front = 3, faultFlag = 0, lengthMask = 7, length_buf = 8,
        memory = Some [10, 11, 12, 13, 14, 15, 16, 17]\<rparr> 9 = Inr (ok, b')
      \<and> \<not> ok \<and> faultFlag b' = 1)
   \<and> (\<exists>ok d' b'. CircularBuffer_popFrontByte
       \<lparr>back = 2, front = 3, faultFlag = 0, lengthMask = 7, length_buf = 8,
        memory = Some [10, 11, 12, 13, 14, 15, 16, 17]\<rparr> 0 = Inr (ok, d', b')
      \<and> faultFlag b' = 0)
   \<and> (\<exists>n b'. CircularBuffer_pushBack
       \<lparr>back = 2, front = 3, faultFlag = 0, lengthMask = 7, length_buf = 8,
        memory = Some [10, 11, 12, 13, 14, 15, 16, 17]\<rparr> [1, 2] 2 = Some (Inr (n, b'))
      \<and> faultFlag b' = 0)
   \<and> (\<exists>n dst' b'. CircularBuffer_popFront
       \<lparr>back = 2, front = 3, faultFlag = 0, lengthMask = 7, length_buf = 8,
        memory = Some [10, 11, 12, 13, 14, 15, 16, 17]\<rparr> [0, 0] 2 = Some (Inr (n, dst', b'))
      \<and> faultFlag b' = 0)
   \<and> (\<exists>ok b'. CircularBuffer_pushBackByte
       \<lparr>back = 6, front = 3, faultFlag = 1, lengthMask = 7, length_buf = 8,
        memory = Some [10, 11, 12, 13, 14, 15, 16, 17]\<rparr> 9 = Inr (ok, b')
      \<and> ok \<and> faultFlag b' = 1)
   \<and> (\<exists>n b'. CircularBuffer_pushBack
       \<lparr>back = 6, front = 3, faultFlag = 1, lengthMask = 7, length_buf = 8,
        memory = Some [10, 11, 12, 13, 14, 15, 16, 17]\<rparr> [1, 2] 2 = Some (Inr (n, b'))
      \<and> faultFlag b' = 1)
   \<and> (\<exists>r b'. CircularBuffer_checkAndClearFault
       \<lparr>back = 6, front = 3, faultFlag = 1, lengthMask = 7, length_buf = 8,
        memory = Some [10, 11, 12, 13, 14, 15, 16, 17]\<rparr> False = Inr (r, b')
      \<and> faultFlag b' = 0)"
proof -
  define bF where "bF = \<lparr>back = 2, front = 3, faultFlag = 0, lengthMask = 7, length_buf = 8,
               memory = Some [10, 11, 12, 13, 14, 15, 16, 17 :: 8 word]\<rparr>"
  define bS where "bS = \<lparr>back = 6, front = 3, faultFlag = 1, lengthMask = 7, length_buf = 8,
               memory = Some [10, 11, 12, 13, 14, 15, 16, 17 :: 8 word]\<rparr>"
  have iF: "initialized 3 bF" and iS: "initialized 3 bS"
    by (simp_all add: bF_def bS_def initialized_def mask_eq_exp_minus_1)
  have uF: "CircularBuffer_getUnreadSize bF = Inr 7"
    and uS: "CircularBuffer_getUnreadSize bS = Inr 3"
    by (simp_all add: bF_def bS_def getUnreadSize_eq)
  have fF: "faultFlag bF = 0" and fS: "faultFlag bS = 1"
    by (simp_all add: bF_def bS_def)
  have l: "unat (2 :: 16 word) \<le> length [1, 2 :: 8 word]"
    "unat (2 :: 16 word) \<le> length [0, 0 :: 8 word]"
    by simp_all
  have "(\<exists>ok b'. CircularBuffer_pushBackByte bF 9 = Inr (ok, b') \<and> \<not> ok \<and> faultFlag b' = 1)
   \<and> (\<exists>ok d' b'. CircularBuffer_popFrontByte bF 0 = Inr (ok, d', b') \<and> faultFlag b' = 0)
   \<and> (\<exists>n b'. CircularBuffer_pushBack bF [1, 2] 2 = Some (Inr (n, b')) \<and> faultFlag b' = 0)
   \<and> (\<exists>n dst' b'. CircularBuffer_popFront bF [0, 0] 2 = Some (Inr (n, dst', b'))
        \<and> faultFlag b' = 0)
   \<and> (\<exists>ok b'. CircularBuffer_pushBackByte bS 9 = Inr (ok, b') \<and> ok \<and> faultFlag b' = 1)
   \<and> (\<exists>n b'. CircularBuffer_pushBack bS [1, 2] 2 = Some (Inr (n, b')) \<and> faultFlag b' = 1)
   \<and> (\<exists>r b'. CircularBuffer_checkAndClearFault bS False = Inr (r, b') \<and> faultFlag b' = 0)"
    using fault_flag_changes [OF iF uF l, of 9 0 False]
      fault_flag_changes [OF iS uS l, of 9 0 False]
    unfolding fF fS by (auto split: if_splits)
  then show ?thesis
    by (simp only: bF_def bS_def)
qed



end
